theory Spec2Isabelle
  imports Complex_Main
begin

section \<open>Cell extraction of a triangulated arrangement (libigl, \<open>extract_cells.cpp\<close>)\<close>

text \<open>
  A shallow embedding of \<open>igl::copyleft::cgal::extract_cells\<close> (the face-level and the
  patch-level overload) and of \<open>extract_cells_single_component\<close>.

  Conventions of the embedding.
  \<^item> Indices (\<open>size_t\<close> values and the non-negative \<open>int\<close> entries of the index matrices)
    are natural numbers. A dense \<open>#rows\<close> by 2 or by 3 matrix is a list of rows.
  \<^item> Every failure of the source is a value of type \<open>error\<close>: the \<open>throw\<close> of
    \<open>is_consistent\<close>, each \<open>assert\<close> (assertions are taken as enabled, so a failed
    assertion aborts the call), and each access outside a container or a remainder by
    zero (undefined behaviour in C++; a bounds assertion for the matrix accessors).
  \<^item> The \<open>while\<close> loop of the peel is a partial function with values in \<open>option\<close>:
    \<open>None\<close> stands for a loop that does not return.
  \<^item> The geometric collaborators (\<open>order_facets_around_edge\<close>, \<open>facet_components\<close>
    after \<open>triangle_triangle_adjacency\<close>, \<open>outer_facet\<close>, \<open>closest_facet\<close>,
    \<open>unique_edge_map\<close>, \<open>extract_manifold_patches\<close>) are not part of the file and
    are parameters of the model.
\<close>

subsection \<open>Errors and checked access\<close>

datatype error =
    Invalid_face                    \<comment> \<open>\<open>throw "Invalid face!"\<close>\<close>
  | Failed_to_find_edge             \<comment> \<open>\<open>assert(curr_i < edge_valance)\<close>\<close>
  | Cell_assignment_inconsistency   \<comment> \<open>the assertion of the peel on a labeled neighbour\<close>
  | Ambient_size_mismatch           \<comment> \<open>\<open>assert(num_ambient_comps == ambient_cells_i.size())\<close>\<close>
  | No_embedded_component           \<comment> \<open>\<open>assert(embedded_comp != INVALID)\<close>\<close>
  | No_embedded_cell                \<comment> \<open>\<open>assert(embedded_cell != INVALID)\<close>\<close>
  | Index_out_of_range              \<comment> \<open>an access outside a vector or matrix\<close>
  | Remainder_by_zero               \<comment> \<open>\<open>index % num_faces\<close> with no face\<close>
  | Empty_matrix                    \<comment> \<open>\<open>maxCoeff\<close> of an empty vector\<close>

definition elem :: "'a list \<Rightarrow> nat \<Rightarrow> error + 'a" where
  "elem xs i = (if i < length xs then Inr (xs ! i) else Inl Index_out_of_range)"

definition err_bind :: "error + 'a \<Rightarrow> ('a \<Rightarrow> error + 'b) \<Rightarrow> error + 'b" where
  "err_bind m f = (case m of Inl e \<Rightarrow> Inl e | Inr x \<Rightarrow> f x)"

text \<open>A \<open>for\<close> loop over a container whose body may fail: the first failure ends the loop.\<close>

fun foldM :: "('a \<Rightarrow> 's \<Rightarrow> error + 's) \<Rightarrow> 'a list \<Rightarrow> 's \<Rightarrow> error + 's" where
  "foldM f [] s = Inr s"
| "foldM f (x # xs) s = (case f x s of Inl e \<Rightarrow> Inl e | Inr s' \<Rightarrow> foldM f xs s')"

fun mapM :: "('a \<Rightarrow> error + 'b) \<Rightarrow> 'a list \<Rightarrow> error + 'b list" where
  "mapM f [] = Inr []"
| "mapM f (x # xs) =
     (case f x of Inl e \<Rightarrow> Inl e
      | Inr y \<Rightarrow> (case mapM f xs of Inl e \<Rightarrow> Inl e | Inr ys \<Rightarrow> Inr (y # ys)))"

text \<open>The same loop when the body may also fail to return.\<close>

fun foldMO :: "('a \<Rightarrow> 's \<Rightarrow> (error + 's) option) \<Rightarrow> 'a list \<Rightarrow> 's \<Rightarrow> (error + 's) option" where
  "foldMO f [] s = Some (Inr s)"
| "foldMO f (x # xs) s =
     (case f x s of None \<Rightarrow> None | Some (Inl e) \<Rightarrow> Some (Inl e)
      | Some (Inr s') \<Rightarrow> foldMO f xs s')"

subsection \<open>Machine integers of the signed face index\<close>

text \<open>
  \<open>(fid+1)*(cons ? 1:-1)\<close> multiplies a \<open>size_t\<close> by an \<open>int\<close>: the \<open>int\<close> is converted to
  \<open>size_t\<close> (64 bits, modulo \<open>2^64\<close>), the product wraps, and \<open>push_back\<close> into a
  \<open>std::vector<int>\<close> narrows it to 32 bits, two's complement.
\<close>

definition size_t_of_int :: "int \<Rightarrow> nat" where
  "size_t_of_int i = nat (i mod 2 ^ 64)"

definition int_of_size_t :: "nat \<Rightarrow> int" where
  "int_of_size_t n = (let m = int n mod 2 ^ 32 in if m < 2 ^ 31 then m else m - 2 ^ 32)"

definition signed_index :: "nat \<Rightarrow> bool \<Rightarrow> int" where
  "signed_index fid cons =
     int_of_size_t (((fid + 1) * size_t_of_int (if cons then 1 else - 1)) mod 2 ^ 64)"

subsection \<open>Faces, edges and the orientation test\<close>

type_synonym face = "nat \<times> nat \<times> nat"

definition edge_index_to_face_index :: "nat \<Rightarrow> nat \<Rightarrow> error + nat" where
  "edge_index_to_face_index num_faces index =
     (if num_faces = 0 then Inl Remainder_by_zero else Inr (index mod num_faces))"

definition is_consistent :: "face list \<Rightarrow> nat \<Rightarrow> nat \<Rightarrow> nat \<Rightarrow> error + bool" where
  "is_consistent F fid s d =
     err_bind (elem F fid) (\<lambda>f. case f of (f0, f1, f2) \<Rightarrow>
       if f0 = s \<and> f1 = d then Inr False
       else if f1 = s \<and> f2 = d then Inr False
       else if f2 = s \<and> f0 = d then Inr False
       else if f0 = d \<and> f1 = s then Inr True
       else if f1 = d \<and> f2 = s then Inr True
       else if f2 = d \<and> f0 = s then Inr True
       else Inl Invalid_face)"

text \<open>The face contains the directed pair \<open>(a, b)\<close> as consecutive vertices of one of its
  three cyclic rotations.\<close>

definition has_directed_edge :: "face \<Rightarrow> nat \<Rightarrow> nat \<Rightarrow> bool" where
  "has_directed_edge f a b =
     (case f of (f0, f1, f2) \<Rightarrow> (f0 = a \<and> f1 = b) \<or> (f1 = a \<and> f2 = b) \<or> (f2 = a \<and> f0 = b))"

text \<open>The signed index of one half-edge occurrence \<open>ei\<close> on the unique edge \<open>(s, d)\<close>.\<close>

definition signed_adj_face :: "face list \<Rightarrow> nat \<Rightarrow> nat \<Rightarrow> nat \<Rightarrow> error + int" where
  "signed_adj_face F s d ei =
     err_bind (edge_index_to_face_index (length F) ei) (\<lambda>fid.
     err_bind (is_consistent F fid s d) (\<lambda>cons.
     Inr (signed_index fid cons)))"

definition signed_adj_faces :: "face list \<Rightarrow> nat \<Rightarrow> nat \<Rightarrow> nat list \<Rightarrow> error + int list" where
  "signed_adj_faces F s d adj_faces = mapM (signed_adj_face F s d) adj_faces"

subsection \<open>The cache of cyclic orders around the non-manifold edges\<close>

record edge_cache =
  patch_edge_adj :: "nat list list"
  orders :: "nat list list"
  orientations :: "bool list list"

text \<open>\<open>patch_edge_adj[P[fid]].push_back(ei)\<close> for one half-edge occurrence.\<close>

definition remember_patch_edge :: "nat \<Rightarrow> nat list \<Rightarrow> nat \<Rightarrow> nat list list \<Rightarrow> error + nat list list" where
  "remember_patch_edge num_faces P ei adj =
     err_bind (edge_index_to_face_index num_faces ei) (\<lambda>fid.
     err_bind (elem P fid) (\<lambda>p.
     err_bind (elem adj p) (\<lambda>es.
     Inr (adj[p := es @ [ei]]))))"

text \<open>The body of the loop over the unique edges. \<open>ofae s d signed\<close> is the order returned
  by \<open>order_facets_around_edge\<close> for the edge \<open>(s, d)\<close> and the signed indices.\<close>

definition cache_edge ::
  "(nat \<Rightarrow> nat \<Rightarrow> int list \<Rightarrow> nat list) \<Rightarrow> face list \<Rightarrow> nat list \<Rightarrow> (nat \<times> nat) list \<Rightarrow>
   nat list list \<Rightarrow> nat \<Rightarrow> edge_cache \<Rightarrow> error + edge_cache" where
  "cache_edge ofae F P uE uE2E i c =
     err_bind (elem uE i) (\<lambda>sd. case sd of (s, d) \<Rightarrow>
     err_bind (elem uE2E i) (\<lambda>adj_faces.
     if length adj_faces > 2 then
       err_bind (signed_adj_faces F s d adj_faces) (\<lambda>signed.
       let order = ofae s d signed in
       err_bind (mapM (\<lambda>k. err_bind (elem signed k) (\<lambda>t. Inr (t > 0))) order) (\<lambda>orientation.
       err_bind (mapM (elem adj_faces) order) (\<lambda>order'.
       err_bind (foldM (remember_patch_edge (length F) P) adj_faces (patch_edge_adj c)) (\<lambda>adj.
       if i < length (orders c) \<and> i < length (orientations c) then
         Inr \<lparr>patch_edge_adj = adj, orders = (orders c)[i := order'],
              orientations = (orientations c)[i := orientation]\<rparr>
       else Inl Index_out_of_range))))
     else Inr c))"

definition build_edge_cache ::
  "(nat \<Rightarrow> nat \<Rightarrow> int list \<Rightarrow> nat list) \<Rightarrow> face list \<Rightarrow> nat list \<Rightarrow> (nat \<times> nat) list \<Rightarrow>
   nat list list \<Rightarrow> nat \<Rightarrow> error + edge_cache" where
  "build_edge_cache ofae F P uE uE2E num_patches =
     foldM (cache_edge ofae F P uE uE2E) [0..<length uE]
       \<lparr>patch_edge_adj = replicate num_patches [],
        orders = replicate (length uE) [],
        orientations = replicate (length uE) []\<rparr>"

subsection \<open>The peel of one cell\<close>

text \<open>\<open>INVALID\<close> of \<open>extract_cells_single_component\<close> is \<open>std::numeric_limits<int>::max()\<close>.
  The table \<open>cells\<close> has one row per patch and one column per side.\<close>

definition INVALID :: nat where
  "INVALID = 2147483647"

type_synonym cells = "(nat \<times> nat) list"

definition cell_at :: "cells \<Rightarrow> nat \<Rightarrow> nat \<Rightarrow> error + nat" where
  "cell_at cells p side =
     (if p < length cells \<and> side < 2
      then Inr (if side = 0 then fst (cells ! p) else snd (cells ! p))
      else Inl Index_out_of_range)"

definition cell_set :: "cells \<Rightarrow> nat \<Rightarrow> nat \<Rightarrow> nat \<Rightarrow> error + cells" where
  "cell_set cells p side v =
     (if p < length cells \<and> side < 2
      then Inr (cells[p := (if side = 0 then (v, snd (cells ! p)) else (fst (cells ! p), v))])
      else Inl Index_out_of_range)"

text \<open>What the lambda \<open>peel_cell_bd\<close> captures.\<close>

record peel_env =
  env_P :: "nat list"
  env_patch_edge_adj :: "nat list list"
  env_EMAP :: "nat list"
  env_orders :: "nat list list"
  env_orientations :: "bool list list"
  env_num_faces :: nat

text \<open>The search for \<open>ei\<close> in the order: the first position holding it, or the length.\<close>

definition find_edge :: "nat list \<Rightarrow> nat \<Rightarrow> nat" where
  "find_edge order ei = length (takeWhile (\<lambda>x. x \<noteq> ei) order)"

definition next_index :: "nat \<Rightarrow> bool \<Rightarrow> nat \<Rightarrow> nat \<Rightarrow> nat" where
  "next_index side cons curr_i edge_valance =
     (if side = 0
      then (if cons then curr_i + 1 else curr_i + edge_valance - 1) mod edge_valance
      else (if cons then curr_i + edge_valance - 1 else curr_i + 1) mod edge_valance)"

text \<open>\<open>(next_cons != cons) ? side : abs(side-1)\<close>, on a \<open>short\<close> promoted to \<open>int\<close>.\<close>

definition next_patch_side :: "bool \<Rightarrow> bool \<Rightarrow> nat \<Rightarrow> nat" where
  "next_patch_side cons next_cons side =
     (if next_cons \<noteq> cons then side else nat \<bar>int side - 1\<bar>)"

text \<open>The step across the edge of the half-edge occurrence \<open>ei\<close> from the side \<open>side\<close>:
  the flag of the starting face, the flag of the neighbour, and the neighbour's patch
  and side.\<close>

definition peel_neighbor :: "peel_env \<Rightarrow> nat \<Rightarrow> nat \<Rightarrow> error + (bool \<times> bool \<times> nat \<times> nat)" where
  "peel_neighbor env side ei =
     err_bind (elem (env_EMAP env) ei) (\<lambda>uei.
     err_bind (elem (env_orders env) uei) (\<lambda>order.
     err_bind (elem (env_orientations env) uei) (\<lambda>orientation.
     let edge_valance = length order; curr_i = find_edge order ei in
     if \<not> curr_i < edge_valance then Inl Failed_to_find_edge
     else
       err_bind (elem orientation curr_i) (\<lambda>cons.
       let next = next_index side cons curr_i edge_valance in
       err_bind (elem order next) (\<lambda>next_ei.
       err_bind (elem orientation next) (\<lambda>next_cons.
       err_bind (edge_index_to_face_index (env_num_faces env) next_ei) (\<lambda>next_fid.
       err_bind (elem (env_P env) next_fid) (\<lambda>next_patch_id.
       Inr (cons, next_cons, next_patch_id, next_patch_side cons next_cons side)))))))))"

text \<open>The body of the loop over the edges adjacent to the popped patch.\<close>

definition peel_edge ::
  "peel_env \<Rightarrow> nat \<Rightarrow> nat \<Rightarrow> nat \<Rightarrow> (nat \<times> nat) list \<times> cells \<Rightarrow> error + (nat \<times> nat) list \<times> cells" where
  "peel_edge env cell_idx side ei st =
     (case st of (Q, cells) \<Rightarrow>
      err_bind (peel_neighbor env side ei) (\<lambda>(cons, next_cons, next_patch_id, next_patch_side).
      err_bind (cell_at cells next_patch_id next_patch_side) (\<lambda>v.
      if v = INVALID then
        err_bind (cell_set cells next_patch_id next_patch_side cell_idx) (\<lambda>cells'.
        Inr (Q @ [(next_patch_id, next_patch_side)], cells'))
      else if v = cell_idx then Inr (Q, cells)
      else Inl Cell_assignment_inconsistency)))"

text \<open>One round of the \<open>while\<close> loop, after the entry has been popped.\<close>

definition peel_entry ::
  "peel_env \<Rightarrow> nat \<Rightarrow> nat \<times> nat \<Rightarrow> (nat \<times> nat) list \<times> cells \<Rightarrow> error + (nat \<times> nat) list \<times> cells" where
  "peel_entry env cell_idx entry st =
     (case entry of (patch_id, side) \<Rightarrow>
      err_bind (elem (env_patch_edge_adj env) patch_id) (\<lambda>adj_edges.
      foldM (peel_edge env cell_idx side) adj_edges st))"

partial_function (option) peel_loop ::
  "peel_env \<Rightarrow> nat \<Rightarrow> (nat \<times> nat) list \<Rightarrow> cells \<Rightarrow> (error + cells) option" where
  "peel_loop env cell_idx Q cells =
     (case Q of
        [] \<Rightarrow> Some (Inr cells)
      | entry # Q' \<Rightarrow>
          (case peel_entry env cell_idx entry (Q', cells) of
             Inl e \<Rightarrow> Some (Inl e)
           | Inr (Q'', cells') \<Rightarrow> peel_loop env cell_idx Q'' cells'))"

definition peel_cell_bd :: "peel_env \<Rightarrow> nat \<Rightarrow> nat \<Rightarrow> nat \<Rightarrow> cells \<Rightarrow> (error + cells) option" where
  "peel_cell_bd env seed_patch_id seed_patch_side cell_idx cells =
     (case cell_set cells seed_patch_id seed_patch_side cell_idx of
        Inl e \<Rightarrow> Some (Inl e)
      | Inr cells' \<Rightarrow> peel_loop env cell_idx [(seed_patch_id, seed_patch_side)] cells')"

subsection \<open>The loop over the patches\<close>

text \<open>One of the two \<open>if\<close> blocks of the loop body: a side still unlabeled seeds a cell.\<close>

definition label_side :: "peel_env \<Rightarrow> nat \<Rightarrow> nat \<Rightarrow> cells \<times> nat \<Rightarrow> (error + cells \<times> nat) option" where
  "label_side env i side st =
     (case st of (cells, count) \<Rightarrow>
      (case cell_at cells i side of
         Inl e \<Rightarrow> Some (Inl e)
       | Inr v \<Rightarrow>
           if v = INVALID then
             (case peel_cell_bd env i side count cells of
                None \<Rightarrow> None
              | Some (Inl e) \<Rightarrow> Some (Inl e)
              | Some (Inr cells') \<Rightarrow> Some (Inr (cells', count + 1)))
           else Some (Inr (cells, count))))"

definition label_patch :: "peel_env \<Rightarrow> nat \<Rightarrow> cells \<times> nat \<Rightarrow> (error + cells \<times> nat) option" where
  "label_patch env i st =
     (case label_side env i 0 st of
        None \<Rightarrow> None
      | Some (Inl e) \<Rightarrow> Some (Inl e)
      | Some (Inr st') \<Rightarrow> label_side env i 1 st')"

text \<open>\<open>P.maxCoeff() + 1\<close>; the maximum of an empty vector is outside Eigen's contract.\<close>

definition num_patches_of :: "nat list \<Rightarrow> error + nat" where
  "num_patches_of P = (if P = [] then Inl Empty_matrix else Inr (Max (set P) + 1))"

type_synonym 'a vertex = "'a \<times> 'a \<times> 'a"

text \<open>The collaborators, with the arguments the calls of this file give them. The
  field \<open>facet_components\<close> stands for \<open>triangle_triangle_adjacency\<close> followed by
  \<open>facet_components\<close> and returns \<open>(C, counts)\<close>; \<open>outer_facet\<close> returns the facet and
  the flag \<open>flipped\<close>; \<open>closest_facet\<close> returns the closest facets and their orientations;
  \<open>unique_edge_map\<close> returns \<open>(E, uE, EMAP, uE2E)\<close>.\<close>

record 'a collaborators =
  order_facets_around_edge :: "'a vertex list \<Rightarrow> face list \<Rightarrow> nat \<Rightarrow> nat \<Rightarrow> int list \<Rightarrow> nat list"
  facet_components :: "(nat \<times> nat) list \<Rightarrow> nat list \<Rightarrow> nat list list \<Rightarrow> nat list \<times> nat list"
  outer_facet :: "'a vertex list \<Rightarrow> face list \<Rightarrow> nat list \<Rightarrow> nat \<times> bool"
  closest_facet ::
    "'a vertex list \<Rightarrow> face list \<Rightarrow> nat list \<Rightarrow> 'a vertex list \<Rightarrow> nat list list \<Rightarrow> nat list \<Rightarrow>
     nat list \<times> int list"
  unique_edge_map :: "face list \<Rightarrow> (nat \<times> nat) list \<times> (nat \<times> nat) list \<times> nat list \<times> nat list list"
  extract_manifold_patches :: "face list \<Rightarrow> nat list \<Rightarrow> nat list list \<Rightarrow> nat list"

definition peel_env_of :: "face list \<Rightarrow> nat list \<Rightarrow> nat list \<Rightarrow> edge_cache \<Rightarrow> peel_env" where
  "peel_env_of F P EMAP c =
     \<lparr>env_P = P, env_patch_edge_adj = patch_edge_adj c, env_EMAP = EMAP,
      env_orders = orders c, env_orientations = orientations c, env_num_faces = length F\<rparr>"

definition extract_cells_single_component ::
  "'a collaborators \<Rightarrow> 'a vertex list \<Rightarrow> face list \<Rightarrow> nat list \<Rightarrow> (nat \<times> nat) list \<Rightarrow>
   nat list list \<Rightarrow> nat list \<Rightarrow> (error + cells \<times> nat) option" where
  "extract_cells_single_component col V F P uE uE2E EMAP =
     (case num_patches_of P of
        Inl e \<Rightarrow> Some (Inl e)
      | Inr num_patches \<Rightarrow>
          (case build_edge_cache (order_facets_around_edge col V F) F P uE uE2E num_patches of
             Inl e \<Rightarrow> Some (Inl e)
           | Inr c \<Rightarrow>
               foldMO (label_patch (peel_env_of F P EMAP c)) [0..<num_patches]
                 (replicate num_patches (INVALID, INVALID), 0)))"

subsection \<open>The patch-level \<open>extract_cells\<close>: components and their outer cells\<close>

text \<open>\<open>components[C[i]].push_back(i)\<close> for every face \<open>i\<close>.\<close>

definition push_back_at :: "'a list list \<Rightarrow> nat \<Rightarrow> 'a \<Rightarrow> error + 'a list list" where
  "push_back_at xss k x = err_bind (elem xss k) (\<lambda>xs. Inr (xss[k := xs @ [x]]))"

definition group_faces :: "nat list \<Rightarrow> nat \<Rightarrow> nat \<Rightarrow> error + nat list list" where
  "group_faces C num_faces num_components =
     foldM (\<lambda>i components. err_bind (elem C i) (\<lambda>c. push_back_at components c i))
       [0..<num_faces] (replicate num_components [])"

text \<open>The loop that calls \<open>outer_facet\<close>: the outer facet, its orientation and the raw
  cell on that side of its patch, for the component \<open>i\<close>.\<close>

definition outer_of_component ::
  "'a collaborators \<Rightarrow> 'a vertex list \<Rightarrow> face list \<Rightarrow> nat list \<Rightarrow> cells \<Rightarrow> nat list \<Rightarrow>
   error + nat \<times> nat \<times> nat" where
  "outer_of_component col V F P raw_cells I =
     (case outer_facet col V F I of (f, flipped) \<Rightarrow>
      let orientation = (if flipped then 1 else 0) in
      err_bind (elem P f) (\<lambda>p.
      err_bind (cell_at raw_cells p orientation) (\<lambda>c.
      Inr (f, orientation, c))))"

subsection \<open>Bounding boxes and candidate components\<close>

definition coord :: "'a vertex \<Rightarrow> nat \<Rightarrow> 'a" where
  "coord v d = (case v of (x, y, z) \<Rightarrow> if d = 0 then x else if d = 1 then y else z)"

definition vertex_min :: "'a::linorder vertex \<Rightarrow> 'a vertex \<Rightarrow> 'a vertex" where
  "vertex_min a b = (min (coord a 0) (coord b 0), min (coord a 1) (coord b 1), min (coord a 2) (coord b 2))"

definition vertex_max :: "'a::linorder vertex \<Rightarrow> 'a vertex \<Rightarrow> 'a vertex" where
  "vertex_max a b = (max (coord a 0) (coord b 0), max (coord a 1) (coord b 1), max (coord a 2) (coord b 2))"

text \<open>\<open>V.colwise().maxCoeff()\<close> and \<open>V.colwise().minCoeff()\<close>, for a table with a row.\<close>

definition colwise_max :: "'a::linorder vertex list \<Rightarrow> 'a vertex" where
  "colwise_max V = (Max (set (map (\<lambda>v. coord v 0) V)), Max (set (map (\<lambda>v. coord v 1) V)),
                    Max (set (map (\<lambda>v. coord v 2) V)))"

definition colwise_min :: "'a::linorder vertex list \<Rightarrow> 'a vertex" where
  "colwise_min V = (Min (set (map (\<lambda>v. coord v 0) V)), Min (set (map (\<lambda>v. coord v 1) V)),
                    Min (set (map (\<lambda>v. coord v 2) V)))"

text \<open>The body of the loop over the faces that grows the box of the face's component:
  the state is \<open>(bbox_min, bbox_max)\<close>.\<close>

definition grow_bbox ::
  "'a::linorder vertex list \<Rightarrow> face list \<Rightarrow> nat list \<Rightarrow> nat \<Rightarrow>
   'a vertex list \<times> 'a vertex list \<Rightarrow> error + 'a vertex list \<times> 'a vertex list" where
  "grow_bbox V F C i st =
     err_bind (elem C i) (\<lambda>comp_id.
     err_bind (elem F i) (\<lambda>f. case f of (f0, f1, f2) \<Rightarrow>
     foldM (\<lambda>fj (bbox_min, bbox_max).
              err_bind (elem V fj) (\<lambda>v.
              err_bind (elem bbox_min comp_id) (\<lambda>lo.
              err_bind (elem bbox_max comp_id) (\<lambda>hi.
              Inr (bbox_min[comp_id := vertex_min lo v], bbox_max[comp_id := vertex_max hi v])))))
       [f0, f1, f2] st))"

definition bounding_boxes ::
  "'a::linorder vertex list \<Rightarrow> face list \<Rightarrow> nat list \<Rightarrow> nat \<Rightarrow>
   error + 'a vertex list \<times> 'a vertex list" where
  "bounding_boxes V F C num_components =
     (if V = [] then Inl Empty_matrix
      else foldM (grow_bbox V F C) [0..<length F]
             (replicate num_components (colwise_max V), replicate num_components (colwise_min V)))"

definition bbox_intersects ::
  "'a::linorder vertex list \<Rightarrow> 'a vertex list \<Rightarrow> nat \<Rightarrow> nat \<Rightarrow> error + bool" where
  "bbox_intersects bbox_max bbox_min ci cj =
     err_bind (elem bbox_max ci) (\<lambda>max_i.
     err_bind (elem bbox_min ci) (\<lambda>min_i.
     err_bind (elem bbox_max cj) (\<lambda>max_j.
     err_bind (elem bbox_min cj) (\<lambda>min_j.
     Inr (\<not> (coord max_i 0 < coord min_j 0 \<or>
              coord max_i 1 < coord min_j 1 \<or>
              coord max_i 2 < coord min_j 2 \<or>
              coord max_j 0 < coord min_i 0 \<or>
              coord max_j 1 < coord min_i 1 \<or>
              coord max_j 2 < coord min_i 2))))))"

text \<open>The loop over \<open>j\<close> that collects the components whose box meets the box of \<open>i\<close>.\<close>

definition candidate_step ::
  "'a::linorder vertex list \<Rightarrow> 'a vertex list \<Rightarrow> nat \<Rightarrow> nat \<Rightarrow> nat list \<Rightarrow> error + nat list" where
  "candidate_step bbox_max bbox_min i j candidate_comps =
     (if i = j then Inr candidate_comps
      else err_bind (bbox_intersects bbox_max bbox_min i j) (\<lambda>b.
           Inr (if b then candidate_comps @ [j] else candidate_comps)))"

definition candidates_of ::
  "'a::linorder vertex list \<Rightarrow> 'a vertex list \<Rightarrow> nat \<Rightarrow> nat \<Rightarrow> error + nat list" where
  "candidates_of bbox_max bbox_min num_components i =
     foldM (candidate_step bbox_max bbox_min i) [0..<num_components] []"

subsection \<open>Queries and the nesting relation\<close>

definition get_triangle_center :: "'a::field vertex list \<Rightarrow> face list \<Rightarrow> nat \<Rightarrow> error + 'a vertex" where
  "get_triangle_center V F fid =
     err_bind (elem F fid) (\<lambda>f. case f of (f0, f1, f2) \<Rightarrow>
     err_bind (elem V f0) (\<lambda>a.
     err_bind (elem V f1) (\<lambda>b.
     err_bind (elem V f2) (\<lambda>c.
     Inr ((coord a 0 + coord b 0 + coord c 0) / 3,
          (coord a 1 + coord b 1 + coord c 1) / 3,
          (coord a 2 + coord b 2 + coord c 2) / 3)))))"

text \<open>The query points of the component \<open>i\<close>: one per candidate, the barycenter of the
  candidate's outer facet.\<close>

definition queries_of ::
  "'a::field vertex list \<Rightarrow> face list \<Rightarrow> nat list \<Rightarrow> nat list \<Rightarrow> error + 'a vertex list" where
  "queries_of V F outer_facets candidate_comps =
     mapM (\<lambda>index. err_bind (elem outer_facets index) (get_triangle_center V F)) candidate_comps"

record nesting =
  nest_nested_cells :: "nat list list"
  nest_ambient_cells :: "nat list list"
  nest_ambient_comps :: "nat list list"

text \<open>The body of the loop over the candidates of the component \<open>i\<close>.\<close>

definition record_candidate ::
  "nat list \<Rightarrow> cells \<Rightarrow> nat list \<Rightarrow> nat \<Rightarrow> nat list \<Rightarrow> nat list \<Rightarrow> int list \<Rightarrow> nat \<Rightarrow>
   nesting \<Rightarrow> error + nesting" where
  "record_candidate P raw_cells outer_cells i candidate_comps closest_facets
     closest_facet_orientations j st =
     err_bind (elem candidate_comps j) (\<lambda>index.
     err_bind (elem closest_facets j) (\<lambda>cf.
     err_bind (elem P cf) (\<lambda>closest_patch.
     err_bind (elem closest_facet_orientations j) (\<lambda>cfo.
     let closest_patch_side = (if cfo \<noteq> 0 then 0 else 1) in
     err_bind (cell_at raw_cells closest_patch closest_patch_side) (\<lambda>ambient_cell.
     err_bind (elem outer_cells i) (\<lambda>outer_i.
     if ambient_cell \<noteq> outer_i then
       err_bind (elem outer_cells index) (\<lambda>outer_index.
       err_bind (push_back_at (nest_nested_cells st) ambient_cell outer_index) (\<lambda>nested.
       err_bind (push_back_at (nest_ambient_cells st) outer_index ambient_cell) (\<lambda>ambient.
       err_bind (push_back_at (nest_ambient_comps st) index i) (\<lambda>comps.
       Inr \<lparr>nest_nested_cells = nested, nest_ambient_cells = ambient, nest_ambient_comps = comps\<rparr>))))
     else Inr st))))))"

text \<open>The body of the loop over the components, inside \<open>if (num_components > 1)\<close>.\<close>

definition nest_component ::
  "'a::linordered_field collaborators \<Rightarrow> 'a vertex list \<Rightarrow> face list \<Rightarrow> nat list \<Rightarrow> nat list list \<Rightarrow>
   nat list \<Rightarrow> cells \<Rightarrow> nat \<Rightarrow> nat list list \<Rightarrow> nat list \<Rightarrow> nat list \<Rightarrow> 'a vertex list \<Rightarrow>
   'a vertex list \<Rightarrow> nat \<Rightarrow> nesting \<Rightarrow> error + nesting" where
  "nest_component col V F P uE2E EMAP raw_cells num_components Is outer_facets outer_cells
     bbox_max bbox_min i st =
     err_bind (candidates_of bbox_max bbox_min num_components i) (\<lambda>candidate_comps.
     if length candidate_comps = 0 then Inr st
     else
       err_bind (queries_of V F outer_facets candidate_comps) (\<lambda>queries.
       err_bind (elem Is i) (\<lambda>I.
       case closest_facet col V F I queries uE2E EMAP of
         (closest_facets, closest_facet_orientations) \<Rightarrow>
           foldM (record_candidate P raw_cells outer_cells i candidate_comps closest_facets
                    closest_facet_orientations)
             [0..<length candidate_comps] st)))"

definition nesting_of ::
  "'a::linordered_field collaborators \<Rightarrow> 'a vertex list \<Rightarrow> face list \<Rightarrow> nat list \<Rightarrow> nat list list \<Rightarrow>
   nat list \<Rightarrow> cells \<Rightarrow> nat \<Rightarrow> nat list \<Rightarrow> nat \<Rightarrow> nat list list \<Rightarrow> nat list \<Rightarrow> nat list \<Rightarrow>
   error + nesting" where
  "nesting_of col V F P uE2E EMAP raw_cells num_raw_cells C num_components Is outer_facets
     outer_cells =
     (let st = \<lparr>nest_nested_cells = replicate num_raw_cells [],
                nest_ambient_cells = replicate num_raw_cells [],
                nest_ambient_comps = replicate num_components []\<rparr>
      in if num_components > 1 then
           err_bind (bounding_boxes V F C num_components) (\<lambda>(bbox_min, bbox_max).
           foldM (nest_component col V F P uE2E EMAP raw_cells num_components Is outer_facets
                    outer_cells bbox_max bbox_min)
             [0..<num_components] st)
         else Inr st)"

subsection \<open>The direct parent of every outer cell\<close>

text \<open>\<open>INVALID\<close> of the patch-level \<open>extract_cells\<close> is
  \<open>std::numeric_limits<size_t>::max()\<close>.\<close>

definition INVALID_size_t :: nat where
  "INVALID_size_t = 18446744073709551615"

text \<open>The search loop with its \<open>break\<close>: the state is \<open>(embedded_comp, embedded_cell)\<close>,
  and \<open>js\<close> are the indices \<open>j\<close> still to visit.\<close>

fun find_embedded ::
  "nat list list \<Rightarrow> nat list \<Rightarrow> nat list \<Rightarrow> nat \<Rightarrow> nat list \<Rightarrow> error + nat \<times> nat" where
  "find_embedded ambient_comps ambient_comps_i ambient_cells_i num_ambient_comps [] =
     Inr (INVALID_size_t, INVALID_size_t)"
| "find_embedded ambient_comps ambient_comps_i ambient_cells_i num_ambient_comps (j # js) =
     err_bind (elem ambient_comps_i j) (\<lambda>comp.
     err_bind (elem ambient_comps comp) (\<lambda>ambient_comps_j.
     if length ambient_comps_j = num_ambient_comps - 1 then
       err_bind (elem ambient_cells_i j) (\<lambda>cell. Inr (comp, cell))
     else find_embedded ambient_comps ambient_comps_i ambient_cells_i num_ambient_comps js))"

text \<open>The body of the loop over the components that fills \<open>embedded_cells\<close>.\<close>

definition embed_component ::
  "nat list \<Rightarrow> nat list list \<Rightarrow> nat list list \<Rightarrow> nat \<Rightarrow> nat \<Rightarrow> nat list \<Rightarrow> error + nat list" where
  "embed_component outer_cells ambient_comps ambient_cells INFINITE_CELL i embedded_cells =
     err_bind (elem outer_cells i) (\<lambda>outer_cell.
     err_bind (elem ambient_comps i) (\<lambda>ambient_comps_i.
     err_bind (elem ambient_cells outer_cell) (\<lambda>ambient_cells_i.
     let num_ambient_comps = length ambient_comps_i in
     if num_ambient_comps \<noteq> length ambient_cells_i then Inl Ambient_size_mismatch
     else if num_ambient_comps > 0 then
       err_bind (find_embedded ambient_comps ambient_comps_i ambient_cells_i num_ambient_comps
                   [0..<num_ambient_comps]) (\<lambda>(embedded_comp, embedded_cell).
       if embedded_comp = INVALID_size_t then Inl No_embedded_component
       else if embedded_cell = INVALID_size_t then Inl No_embedded_cell
       else if outer_cell < length embedded_cells
         then Inr (embedded_cells[outer_cell := embedded_cell])
         else Inl Index_out_of_range)
     else if outer_cell < length embedded_cells
       then Inr (embedded_cells[outer_cell := INFINITE_CELL])
       else Inl Index_out_of_range)))"

definition embedded_cells_of ::
  "nat \<Rightarrow> nat list \<Rightarrow> nat list list \<Rightarrow> nat list list \<Rightarrow> nat \<Rightarrow> error + nat list" where
  "embedded_cells_of num_components outer_cells ambient_comps ambient_cells num_raw_cells =
     foldM (embed_component outer_cells ambient_comps ambient_cells num_raw_cells)
       [0..<num_components] (replicate num_raw_cells INVALID_size_t)"

text \<open>The loop that rewrites the raw cells of the patch \<open>i\<close> to their parents.\<close>

definition embed_side :: "nat list \<Rightarrow> nat \<Rightarrow> nat \<Rightarrow> cells \<Rightarrow> error + cells" where
  "embed_side embedded_cells i side raw_cells =
     err_bind (cell_at raw_cells i side) (\<lambda>c.
     err_bind (elem embedded_cells c) (\<lambda>e.
     if e \<noteq> INVALID_size_t then cell_set raw_cells i side e else Inr raw_cells))"

definition embed_patch :: "nat list \<Rightarrow> nat \<Rightarrow> cells \<Rightarrow> error + cells" where
  "embed_patch embedded_cells i raw_cells =
     err_bind (embed_side embedded_cells i 0 raw_cells) (embed_side embedded_cells i 1)"

subsection \<open>The final relabeling\<close>

text \<open>One of the two \<open>if\<close> blocks of the loop body: the final id of the raw id \<open>old\<close>, with
  the table \<open>mapped_indices\<close> and the counter.\<close>

definition relabel_cell :: "nat \<Rightarrow> nat list \<times> nat \<Rightarrow> error + nat \<times> nat list \<times> nat" where
  "relabel_cell old st =
     (case st of (mapped_indices, count) \<Rightarrow>
      err_bind (elem mapped_indices old) (\<lambda>m.
      if m = INVALID_size_t then Inr (count, mapped_indices[old := count], count + 1)
      else Inr (m, mapped_indices, count)))"

definition relabel_patch :: "nat \<Rightarrow> cells \<times> nat list \<times> nat \<Rightarrow> error + cells \<times> nat list \<times> nat" where
  "relabel_patch i st =
     (case st of (raw_cells, mc) \<Rightarrow>
      err_bind (cell_at raw_cells i 0) (\<lambda>old_positive_cell_id.
      err_bind (cell_at raw_cells i 1) (\<lambda>old_negative_cell_id.
      err_bind (relabel_cell old_positive_cell_id mc) (\<lambda>(positive_cell_id, mc1).
      err_bind (relabel_cell old_negative_cell_id mc1) (\<lambda>(negative_cell_id, mc2).
      err_bind (cell_set raw_cells i 0 positive_cell_id) (\<lambda>raw1.
      err_bind (cell_set raw1 i 1 negative_cell_id) (\<lambda>raw2.
      Inr (raw2, mc2))))))))"

text \<open>From \<open>size_t count = 0\<close> to \<open>return count\<close>.\<close>

definition relabel :: "nat \<Rightarrow> nat \<Rightarrow> cells \<Rightarrow> error + cells \<times> nat" where
  "relabel num_patches num_raw_cells raw_cells =
     (let INFINITE_CELL = num_raw_cells;
          mapped_indices = (replicate (num_raw_cells + 1) INVALID_size_t)[INFINITE_CELL := 0]
      in err_bind (foldM relabel_patch [0..<num_patches] (raw_cells, mapped_indices, 1))
           (\<lambda>(cells, mapped_indices', count). Inr (cells, count)))"

subsection \<open>The two overloads of \<open>extract_cells\<close>\<close>

text \<open>Everything after the call of \<open>extract_cells_single_component\<close>.\<close>

definition resolve_cells ::
  "'a::linordered_field collaborators \<Rightarrow> 'a vertex list \<Rightarrow> face list \<Rightarrow> nat list \<Rightarrow> (nat \<times> nat) list \<Rightarrow>
   nat list list \<Rightarrow> nat list \<Rightarrow> nat \<Rightarrow> cells \<Rightarrow> nat \<Rightarrow> error + cells \<times> nat" where
  "resolve_cells col V F P E uE2E EMAP num_patches raw_cells num_raw_cells =
     (case facet_components col E EMAP uE2E of (C, counts) \<Rightarrow>
      let num_components = length counts in
      err_bind (group_faces C (length F) num_components) (\<lambda>Is.
      err_bind (mapM (outer_of_component col V F P raw_cells) Is) (\<lambda>outer.
      let outer_facets = map fst outer; outer_cells = map (\<lambda>x. snd (snd x)) outer in
      err_bind (nesting_of col V F P uE2E EMAP raw_cells num_raw_cells C num_components Is
                  outer_facets outer_cells) (\<lambda>nest.
      err_bind (embedded_cells_of num_components outer_cells (nest_ambient_comps nest)
                  (nest_ambient_cells nest) num_raw_cells) (\<lambda>embedded_cells.
      err_bind (foldM (embed_patch embedded_cells) [0..<num_patches] raw_cells) (\<lambda>raw_cells'.
      relabel num_patches num_raw_cells raw_cells'))))))"

text \<open>\<open>resolve_cells\<close> up to the end of the loop that rewrites the raw cells, without the
  relabeling that follows: the table that the relabeling scans.\<close>

definition rewritten_cells ::
  "'a::linordered_field collaborators \<Rightarrow> 'a vertex list \<Rightarrow> face list \<Rightarrow> nat list \<Rightarrow> (nat \<times> nat) list \<Rightarrow>
   nat list list \<Rightarrow> nat list \<Rightarrow> nat \<Rightarrow> cells \<Rightarrow> nat \<Rightarrow> error + cells" where
  "rewritten_cells col V F P E uE2E EMAP num_patches raw_cells num_raw_cells =
     (case facet_components col E EMAP uE2E of (C, counts) \<Rightarrow>
      let num_components = length counts in
      err_bind (group_faces C (length F) num_components) (\<lambda>Is.
      err_bind (mapM (outer_of_component col V F P raw_cells) Is) (\<lambda>outer.
      let outer_facets = map fst outer; outer_cells = map (\<lambda>x. snd (snd x)) outer in
      err_bind (nesting_of col V F P uE2E EMAP raw_cells num_raw_cells C num_components Is
                  outer_facets outer_cells) (\<lambda>nest.
      err_bind (embedded_cells_of num_components outer_cells (nest_ambient_comps nest)
                  (nest_ambient_cells nest) num_raw_cells) (\<lambda>embedded_cells.
      foldM (embed_patch embedded_cells) [0..<num_patches] raw_cells)))))"

definition extract_cells ::
  "'a::linordered_field collaborators \<Rightarrow> 'a vertex list \<Rightarrow> face list \<Rightarrow> nat list \<Rightarrow> (nat \<times> nat) list \<Rightarrow>
   (nat \<times> nat) list \<Rightarrow> nat list list \<Rightarrow> nat list \<Rightarrow> (error + cells \<times> nat) option" where
  "extract_cells col V F P E uE uE2E EMAP =
     (case num_patches_of P of
        Inl e \<Rightarrow> Some (Inl e)
      | Inr num_patches \<Rightarrow>
          (case extract_cells_single_component col V F P uE uE2E EMAP of
             None \<Rightarrow> None
           | Some (Inl e) \<Rightarrow> Some (Inl e)
           | Some (Inr (raw_cells, num_raw_cells)) \<Rightarrow>
               Some (resolve_cells col V F P E uE2E EMAP num_patches raw_cells num_raw_cells)))"

text \<open>The loop that gives every face the row of its patch.\<close>

definition distribute_cells :: "nat \<Rightarrow> nat list \<Rightarrow> cells \<Rightarrow> error + cells" where
  "distribute_cells num_faces P per_patch_cells =
     mapM (\<lambda>i. err_bind (elem P i) (elem per_patch_cells)) [0..<num_faces]"

definition extract_cells_VF ::
  "'a::linordered_field collaborators \<Rightarrow> 'a vertex list \<Rightarrow> face list \<Rightarrow> (error + cells \<times> nat) option" where
  "extract_cells_VF col V F =
     (case unique_edge_map col F of (E, uE, EMAP, uE2E) \<Rightarrow>
      let P = extract_manifold_patches col F EMAP uE2E in
      (case extract_cells col V F P E uE uE2E EMAP of
         None \<Rightarrow> None
       | Some (Inl e) \<Rightarrow> Some (Inl e)
       | Some (Inr (per_patch_cells, num_cells)) \<Rightarrow>
           (case distribute_cells (length F) P per_patch_cells of
              Inl e \<Rightarrow> Some (Inl e)
            | Inr cells \<Rightarrow> Some (Inr (cells, num_cells)))))"

subsection \<open>Notions used to state the properties\<close>

text \<open>The entries of a table of cells in the order of the scans of the source: patch after
  patch, side 0 before side 1. The entry of the patch \<open>p\<close> and side \<open>s\<close> is at \<open>2 * p + s\<close>.\<close>

definition cell_entries :: "cells \<Rightarrow> nat list" where
  "cell_entries cells = concat (map (\<lambda>(a, b). [a, b]) cells)"

text \<open>The number of entries still \<open>INVALID\<close>.\<close>

definition unlabeled :: "nat list \<Rightarrow> nat" where
  "unlabeled xs = length (filter (\<lambda>v. v = INVALID) xs)"

text \<open>The entries \<open>ys\<close> come from \<open>xs\<close> by giving some \<open>INVALID\<close> entries the label \<open>c\<close>.\<close>

definition labels_only :: "nat \<Rightarrow> nat list \<Rightarrow> nat list \<Rightarrow> bool" where
  "labels_only c xs ys = list_all2 (\<lambda>x y. y = x \<or> (x = INVALID \<and> y = c)) xs ys"

text \<open>The quantity that every round of the \<open>while\<close> loop of the peel decreases.\<close>

definition peel_measure :: "(nat \<times> nat) list \<times> cells \<Rightarrow> nat" where
  "peel_measure st = 2 * unlabeled (cell_entries (snd st)) + length (fst st)"


text \<open>The invariant of the loop over the patches, for \<open>n\<close> patches: every entry is
  \<open>INVALID\<close> or a cell id below the counter, every id below the counter is on some entry,
  and the counter is at most the number of labeled entries.\<close>

definition cells_inv :: "nat \<Rightarrow> cells \<times> nat \<Rightarrow> bool" where
  "cells_inv n st =
     (case st of (cells, count) \<Rightarrow>
        length cells = n \<and>
        (\<forall>v \<in> set (cell_entries cells). v = INVALID \<or> v < count) \<and>
        (\<forall>c<count. c \<in> set (cell_entries cells)) \<and>
        count + unlabeled (cell_entries cells) \<le> 2 * n)"

text \<open>The steps of a run. \<open>peel_visits env cell_idx Q0 cells0 patch_id side ei Q cells\<close>: the
  \<open>while\<close> loop of the peel for the cell \<open>cell_idx\<close>, entered with the queue \<open>Q0\<close> and the
  table \<open>cells0\<close>, reaches the body of its inner loop for the half-edge occurrence \<open>ei\<close>
  of the popped entry \<open>(patch_id, side)\<close>, with the queue \<open>Q\<close> and the table \<open>cells\<close> at
  that moment.\<close>

inductive peel_visits ::
  "peel_env \<Rightarrow> nat \<Rightarrow> (nat \<times> nat) list \<Rightarrow> cells \<Rightarrow> nat \<Rightarrow> nat \<Rightarrow> nat \<Rightarrow> (nat \<times> nat) list \<Rightarrow> cells \<Rightarrow> bool"
  for env :: peel_env and cell_idx :: nat where
    this_entry:
      "elem (env_patch_edge_adj env) patch_id = Inr (pre @ ei # post) \<Longrightarrow>
       foldM (peel_edge env cell_idx side) pre (Q0, cells0) = Inr (Q, cells) \<Longrightarrow>
       peel_visits env cell_idx ((patch_id, side) # Q0) cells0 patch_id side ei Q cells"
  | later_entry:
      "peel_entry env cell_idx entry (Q0, cells0) = Inr (Q1, cells1) \<Longrightarrow>
       peel_visits env cell_idx Q1 cells1 patch_id side ei Q cells \<Longrightarrow>
       peel_visits env cell_idx (entry # Q0) cells0 patch_id side ei Q cells"

text \<open>\<open>seeds_peel env is st i side count cells\<close>: the loop over the patches \<open>is\<close>, entered in
  the state \<open>st\<close>, calls \<open>peel_cell_bd\<close> for the seed \<open>(i, side)\<close> with the cell id \<open>count\<close>
  and the table \<open>cells\<close>.\<close>

inductive seeds_peel ::
  "peel_env \<Rightarrow> nat list \<Rightarrow> cells \<times> nat \<Rightarrow> nat \<Rightarrow> nat \<Rightarrow> nat \<Rightarrow> cells \<Rightarrow> bool"
  for env :: peel_env where
    first_side:
      "cell_at cells i 0 = Inr INVALID \<Longrightarrow>
       seeds_peel env (i # is) (cells, count) i 0 count cells"
  | second_side:
      "label_side env i 0 st = Some (Inr (cells, count)) \<Longrightarrow>
       cell_at cells i 1 = Inr INVALID \<Longrightarrow>
       seeds_peel env (i # is) st i 1 count cells"
  | later_patch:
      "label_patch env i st = Some (Inr st') \<Longrightarrow>
       seeds_peel env is st' j side count cells \<Longrightarrow>
       seeds_peel env (i # is) st j side count cells"

text \<open>The relabeling in the words of the specification. \<open>first_seen seen rs\<close> scans the raw
  ids \<open>rs\<close> and appends every id not seen before to the list \<open>seen\<close>; the final id of a raw
  id is its position in the list, so that the ids are given out in first-seen order.\<close>

fun first_seen :: "nat list \<Rightarrow> nat list \<Rightarrow> nat list" where
  "first_seen seen [] = seen"
| "first_seen seen (r # rs) = first_seen (if r \<in> set seen then seen else seen @ [r]) rs"

definition final_id :: "nat list \<Rightarrow> nat \<Rightarrow> nat" where
  "final_id seen r = length (takeWhile (\<lambda>x. x \<noteq> r) seen)"

text \<open>The invariant of the relabeling loop: the table \<open>mapped_indices\<close> holds the final id of
  every raw id seen so far and \<open>INVALID\<close> elsewhere, and the counter is the number of ids
  seen.\<close>

definition relabel_inv :: "nat list \<Rightarrow> nat list \<times> nat \<Rightarrow> bool" where
  "relabel_inv seen st =
     (case st of (mapped_indices, count) \<Rightarrow>
        distinct seen \<and> count = length seen \<and> set seen \<subseteq> {0..<length mapped_indices} \<and>
        length mapped_indices < INVALID_size_t \<and>
        (\<forall>r<length mapped_indices.
           mapped_indices ! r = (if r \<in> set seen then final_id seen r else INVALID_size_t)))"

subsection \<open>Example arrangements\<close>

text \<open>Three triangles around the common edge \<open>(0, 1)\<close>, each a patch of its own, with the
  edge tables that \<open>unique_edge_map\<close> gives for them. The half-edge occurrence \<open>f + 3 * k\<close>
  is the edge of the face \<open>f\<close> opposite to its corner \<open>k\<close>.\<close>

definition fan_V :: "rat vertex list" where
  "fan_V = [(0, 0, 0), (0, 0, 1), (1, 0, 0), (0, 1, 0), (- 1, - 1, 0)]"

definition fan_F :: "face list" where
  "fan_F = [(0, 1, 2), (0, 1, 3), (0, 1, 4)]"

definition fan_P :: "nat list" where
  "fan_P = [0, 1, 2]"

definition fan_E :: "(nat \<times> nat) list" where
  "fan_E = [(1, 2), (1, 3), (1, 4), (2, 0), (3, 0), (4, 0), (0, 1), (0, 1), (0, 1)]"

definition fan_uE :: "(nat \<times> nat) list" where
  "fan_uE = [(0, 1), (0, 2), (0, 3), (0, 4), (1, 2), (1, 3), (1, 4)]"

definition fan_EMAP :: "nat list" where
  "fan_EMAP = [4, 5, 6, 1, 2, 3, 0, 0, 0]"

definition fan_uE2E :: "nat list list" where
  "fan_uE2E = [[6, 7, 8], [3], [4], [5], [0], [1], [2]]"

definition fan_col :: "rat collaborators" where
  "fan_col =
     \<lparr>order_facets_around_edge = (\<lambda>V F s d signed. [0..<length signed]),
      facet_components = (\<lambda>E EMAP uE2E. ([0, 0, 0], [3])),
      outer_facet = (\<lambda>V F I. (0, False)),
      closest_facet = (\<lambda>V F I queries uE2E EMAP. ([], [])),
      unique_edge_map = (\<lambda>F. (fan_E, fan_uE, fan_EMAP, fan_uE2E)),
      extract_manifold_patches = (\<lambda>F EMAP uE2E. fan_P)\<rparr>"

definition fan_cache :: edge_cache where
  "fan_cache =
     \<lparr>patch_edge_adj = [[6], [7], [8]], orders = [[6, 7, 8], [], [], [], [], [], []],
      orientations = [[False, False, False], [], [], [], [], [], []]\<rparr>"

definition fan_env :: peel_env where
  "fan_env = peel_env_of fan_F fan_P fan_EMAP fan_cache"

text \<open>The same triangles when the order returned for the edge is not a permutation.\<close>

definition twisted_col :: "rat collaborators" where
  "twisted_col = fan_col\<lparr>order_facets_around_edge := (\<lambda>V F s d signed. [0, 0, 1])\<rparr>"

definition twisted_cache :: edge_cache where
  "twisted_cache =
     \<lparr>patch_edge_adj = [[6], [7], [8]], orders = [[6, 6, 7], [], [], [], [], [], []],
      orientations = [[False, False, False], [], [], [], [], [], []]\<rparr>"

definition twisted_env :: peel_env where
  "twisted_env = peel_env_of fan_F fan_P fan_EMAP twisted_cache"

text \<open>The same triangles when the unique edge 0 is recorded as \<open>(5, 6)\<close>, which no face
  contains.\<close>

definition broken_uE :: "(nat \<times> nat) list" where
  "broken_uE = [(5, 6), (0, 2), (0, 3), (0, 4), (1, 2), (1, 3), (1, 4)]"

text \<open>One triangle whose third unique edge is recorded as \<open>(5, 6)\<close>: a manifold edge.\<close>

definition lone_F :: "face list" where
  "lone_F = [(0, 1, 2)]"

definition lone_V :: "rat vertex list" where
  "lone_V = [(0, 0, 0), (1, 0, 0), (0, 1, 0)]"

definition lone_E :: "(nat \<times> nat) list" where
  "lone_E = [(1, 2), (2, 0), (0, 1)]"

definition lone_uE :: "(nat \<times> nat) list" where
  "lone_uE = [(0, 1), (0, 2), (5, 6)]"

definition lone_EMAP :: "nat list" where
  "lone_EMAP = [2, 1, 0]"

definition lone_uE2E :: "nat list list" where
  "lone_uE2E = [[2], [1], [0]]"

definition lone_col :: "rat collaborators" where
  "lone_col =
     \<lparr>order_facets_around_edge = (\<lambda>V F s d signed. [0..<length signed]),
      facet_components = (\<lambda>E EMAP uE2E. ([0], [1])),
      outer_facet = (\<lambda>V F I. (0, False)),
      closest_facet = (\<lambda>V F I queries uE2E EMAP. ([], [])),
      unique_edge_map = (\<lambda>F. (lone_E, lone_uE, lone_EMAP, lone_uE2E)),
      extract_manifold_patches = (\<lambda>F EMAP uE2E. [0])\<rparr>"

text \<open>Two triangles of one patch, joined along the edge \<open>(0, 1)\<close>.\<close>

definition pair_V :: "rat vertex list" where
  "pair_V = [(0, 0, 0), (1, 0, 0), (0, 1, 0), (1, - 1, 0)]"

definition pair_F :: "face list" where
  "pair_F = [(0, 1, 2), (1, 0, 3)]"

definition pair_E :: "(nat \<times> nat) list" where
  "pair_E = [(1, 2), (0, 3), (2, 0), (3, 1), (0, 1), (1, 0)]"

definition pair_uE :: "(nat \<times> nat) list" where
  "pair_uE = [(0, 1), (0, 2), (0, 3), (1, 2), (1, 3)]"

definition pair_EMAP :: "nat list" where
  "pair_EMAP = [3, 2, 1, 4, 0, 0]"

definition pair_uE2E :: "nat list list" where
  "pair_uE2E = [[4, 5], [2], [1], [0], [3]]"

definition pair_col :: "rat collaborators" where
  "pair_col =
     \<lparr>order_facets_around_edge = (\<lambda>V F s d signed. [0..<length signed]),
      facet_components = (\<lambda>E EMAP uE2E. ([0, 0], [2])),
      outer_facet = (\<lambda>V F I. (0, False)),
      closest_facet = (\<lambda>V F I queries uE2E EMAP. ([], [])),
      unique_edge_map = (\<lambda>F. (pair_E, pair_uE, pair_EMAP, pair_uE2E)),
      extract_manifold_patches = (\<lambda>F EMAP uE2E. [0, 0])\<rparr>"

text \<open>Four triangles, each a component and a patch of its own, with overlapping boxes. The
  closest-facet answers put the components 1 and 2 inside the component 0, and the
  component 3 inside both 1 and 2 (and not inside 0). The barycenter of the triangle \<open>c\<close>
  has the first coordinate \<open>c + 3\<close>.\<close>

definition rival_V :: "rat vertex list" where
  "rival_V = [(0, 0, 0), (9, 0, 0), (0, 9, 0), (1, 0, 0), (10, 0, 0), (1, 9, 0),
              (2, 0, 0), (11, 0, 0), (2, 9, 0), (3, 0, 0), (12, 0, 0), (3, 9, 0)]"

definition rival_F :: "face list" where
  "rival_F = [(0, 1, 2), (3, 4, 5), (6, 7, 8), (9, 10, 11)]"

definition rival_P :: "nat list" where
  "rival_P = [0, 1, 2, 3]"

definition rival_E :: "(nat \<times> nat) list" where
  "rival_E = [(1, 2), (4, 5), (7, 8), (10, 11), (2, 0), (5, 3), (8, 6), (11, 9),
              (0, 1), (3, 4), (6, 7), (9, 10)]"

definition rival_uE :: "(nat \<times> nat) list" where
  "rival_uE = [(0, 1), (0, 2), (1, 2), (3, 4), (3, 5), (4, 5), (6, 7), (6, 8), (7, 8),
               (9, 10), (9, 11), (10, 11)]"

definition rival_EMAP :: "nat list" where
  "rival_EMAP = [2, 5, 8, 11, 1, 4, 7, 10, 0, 3, 6, 9]"

definition rival_uE2E :: "nat list list" where
  "rival_uE2E = [[8], [4], [0], [9], [5], [1], [10], [6], [2], [11], [7], [3]]"

definition rival_inside :: "rat \<Rightarrow> nat \<Rightarrow> bool" where
  "rival_inside x i = ((x = 4 \<and> i = 0) \<or> (x = 5 \<and> i = 0) \<or> (x = 6 \<and> i = 1) \<or> (x = 6 \<and> i = 2))"

definition rival_col :: "rat collaborators" where
  "rival_col =
     \<lparr>order_facets_around_edge = (\<lambda>V F s d signed. [0..<length signed]),
      facet_components = (\<lambda>E EMAP uE2E. ([0, 1, 2, 3], [1, 1, 1, 1])),
      outer_facet = (\<lambda>V F I. (hd I, False)),
      closest_facet = (\<lambda>V F I queries uE2E EMAP.
        (map (\<lambda>q. hd I) queries,
         map (\<lambda>q. if rival_inside (coord q 0) (hd I) then 0 else 1) queries)),
      unique_edge_map = (\<lambda>F. (rival_E, rival_uE, rival_EMAP, rival_uE2E)),
      extract_manifold_patches = (\<lambda>F EMAP uE2E. rival_P)\<rparr>"

definition rival_nesting :: nesting where
  "rival_nesting =
     \<lparr>nest_nested_cells = [[], [2, 4], [], [6], [], [6], [], []],
      nest_ambient_cells = [[], [], [1], [], [1], [], [3, 5], []],
      nest_ambient_comps = [[], [0], [0], [1, 2]]\<rparr>"

text \<open>Nesting tables: a chain (component 2 inside 1 inside 0, the outer cells being 0, 2
  and 4 among 6 raw cells), and two components each recorded as ambient to the other.\<close>

definition chain_outer_cells :: "nat list" where
  "chain_outer_cells = [0, 2, 4]"

definition chain_ambient_comps :: "nat list list" where
  "chain_ambient_comps = [[], [0], [0, 1]]"

definition chain_ambient_cells :: "nat list list" where
  "chain_ambient_cells = [[], [], [1], [], [1, 3], []]"

definition chain_embedded_cells :: "nat list" where
  "chain_embedded_cells = [6, INVALID_size_t, 1, INVALID_size_t, 3, INVALID_size_t]"

definition cyclic_outer_cells :: "nat list" where
  "cyclic_outer_cells = [0, 2]"

definition cyclic_ambient_comps :: "nat list list" where
  "cyclic_ambient_comps = [[1], [0]]"

definition cyclic_ambient_cells :: "nat list list" where
  "cyclic_ambient_cells = [[3], [], [1], []]"

text \<open>A call outside the domain: no face at all, and a patch vector with one entry.\<close>

definition bare_col :: "rat collaborators" where
  "bare_col =
     \<lparr>order_facets_around_edge = (\<lambda>V F s d signed. [0..<length signed]),
      facet_components = (\<lambda>E EMAP uE2E. ([], [])),
      outer_facet = (\<lambda>V F I. (0, False)),
      closest_facet = (\<lambda>V F I queries uE2E EMAP. ([], [])),
      unique_edge_map = (\<lambda>F. ([], [], [], [])),
      extract_manifold_patches = (\<lambda>F EMAP uE2E. [])\<rparr>"

section \<open>Properties\<close>

subsection \<open>The error monad and the loops\<close>

lemma err_bind_Inl [simp]: "err_bind (Inl e) f = Inl e"
  by (simp add: err_bind_def)

lemma err_bind_Inr [simp]: "err_bind (Inr x) f = f x"
  by (simp add: err_bind_def)

lemma err_bind_eq_Inr: "err_bind m f = Inr y \<longleftrightarrow> (\<exists>x. m = Inr x \<and> f x = Inr y)"
  by (cases m) simp_all

lemma elem_eq_Inr: "elem xs i = Inr x \<longleftrightarrow> i < length xs \<and> x = xs ! i"
  by (auto simp: elem_def)

lemma elem_in_range: "i < length xs \<Longrightarrow> elem xs i = Inr (xs ! i)"
  by (simp add: elem_def)

lemma elem_out_of_range: "\<not> i < length xs \<Longrightarrow> elem xs i = Inl Index_out_of_range"
  by (simp add: elem_def)

lemma foldM_append:
  "foldM f (xs @ ys) s = (case foldM f xs s of Inl e \<Rightarrow> Inl e | Inr s' \<Rightarrow> foldM f ys s')"
  by (induction xs arbitrary: s) (auto split: sum.splits)

lemma foldM_invariant:
  assumes "foldM f xs s = Inr s'" and "I s"
    and "\<And>x t t'. x \<in> set xs \<Longrightarrow> I t \<Longrightarrow> f x t = Inr t' \<Longrightarrow> I t'"
  shows "I s'"
  using assms
proof (induction xs arbitrary: s)
  case Nil
  then show ?case by simp
next
  case (Cons x xs)
  from Cons.prems(1) obtain t where t: "f x s = Inr t" and rest: "foldM f xs t = Inr s'"
    by (auto split: sum.splits)
  have "I t"
    using Cons.prems(3) [of x s t] Cons.prems(2) t by simp
  show ?case
  proof (rule Cons.IH [OF rest \<open>I t\<close>])
    fix y u u'
    assume "y \<in> set xs" and "I u" and "f y u = Inr u'"
    then show "I u'"
      using Cons.prems(3) [of y u u'] by simp
  qed
qed

lemma mapM_Inr_length: "mapM f xs = Inr ys \<Longrightarrow> length ys = length xs"
  by (induction xs arbitrary: ys) (auto split: sum.splits)

lemma mapM_Inr_nth: "mapM f xs = Inr ys \<Longrightarrow> k < length xs \<Longrightarrow> f (xs ! k) = Inr (ys ! k)"
proof (induction xs arbitrary: ys k)
  case Nil
  then show ?case by simp
next
  case (Cons x xs)
  then show ?case by (cases k) (auto split: sum.splits)
qed

lemma mapM_Inl: "x \<in> set xs \<Longrightarrow> f x = Inl e \<Longrightarrow> \<exists>e'. mapM f xs = Inl e'"
  by (induction xs) (auto split: sum.splits)

lemma foldMO_append:
  "foldMO f (xs @ ys) s =
     (case foldMO f xs s of None \<Rightarrow> None | Some (Inl e) \<Rightarrow> Some (Inl e)
      | Some (Inr s') \<Rightarrow> foldMO f ys s')"
  by (induction xs arbitrary: s) (auto split: option.splits sum.splits)

lemma foldMO_invariant:
  assumes "foldMO f xs s = Some (Inr s')" and "I s"
    and "\<And>x t t'. x \<in> set xs \<Longrightarrow> I t \<Longrightarrow> f x t = Some (Inr t') \<Longrightarrow> I t'"
  shows "I s'"
  using assms
proof (induction xs arbitrary: s)
  case Nil
  then show ?case by simp
next
  case (Cons x xs)
  from Cons.prems(1) obtain t where t: "f x s = Some (Inr t)" and rest: "foldMO f xs t = Some (Inr s')"
    by (auto split: option.splits sum.splits)
  have "I t"
    using Cons.prems(3) [of x s t] Cons.prems(2) t by simp
  show ?case
  proof (rule Cons.IH [OF rest \<open>I t\<close>])
    fix y u u'
    assume "y \<in> set xs" and "I u" and "f y u = Some (Inr u')"
    then show "I u'"
      using Cons.prems(3) [of y u u'] by simp
  qed
qed

subsection \<open>The signed face index\<close>

lemma neg_mod_int:
  fixes n m :: int
  assumes "0 < n" and "n \<le> m"
  shows "(- n) mod m = m - n"
proof -
  have "(- n) mod m = (- n + m) mod m"
    by (simp only: mod_add_self2)
  also have "- n + m = m - n"
    by simp
  also have "(m - n) mod m = m - n"
    using assms by (intro mod_pos_pos_trivial) simp_all
  finally show ?thesis .
qed

lemma signed_index_True: "fid + 1 < 2 ^ 31 \<Longrightarrow> signed_index fid True = int fid + 1"
  by (simp add: signed_index_def size_t_of_int_def int_of_size_t_def Let_def)

lemma signed_index_False:
  assumes "fid + 1 < 2 ^ 31"
  shows "signed_index fid False = - (int fid + 1)"
proof -
  define n where "n = int fid + 1"
  have n: "0 < n" "n < 2 ^ 31"
    using assms by (simp_all add: n_def)
  have a: "size_t_of_int (- 1) = 2 ^ 64 - 1"
    by (simp add: size_t_of_int_def)
  have z: "int (x mod 2 ^ 64) = int x mod 2 ^ 64" for x
    by (simp add: zmod_int)
  have e: "int ((fid + 1) * (2 ^ 64 - 1)) = n * (2 ^ 64 - 1)"
    unfolding n_def by (simp only: of_nat_mult of_nat_add of_nat_1) simp
  have "int (((fid + 1) * (2 ^ 64 - 1)) mod 2 ^ 64) = (n * (2 ^ 64 - 1)) mod 2 ^ 64"
    by (simp only: z e)
  also have "n * (2 ^ 64 - 1) = - n + n * 2 ^ 64"
    by (simp add: algebra_simps)
  also have "(- n + n * 2 ^ 64) mod 2 ^ 64 = (- n) mod 2 ^ 64"
    by (rule mod_mult_self1)
  also have "\<dots> = 2 ^ 64 - n"
    using n by (intro neg_mod_int) simp_all
  finally have b: "int (((fid + 1) * (2 ^ 64 - 1)) mod 2 ^ 64) = 2 ^ 64 - n" .
  have "(2 ^ 64 - n) mod 2 ^ 32 = (- n + 2 ^ 32 * 2 ^ 32) mod 2 ^ 32"
    by simp
  also have "\<dots> = (- n) mod 2 ^ 32"
    by (rule mod_mult_self2)
  also have "\<dots> = 2 ^ 32 - n"
    using n by (intro neg_mod_int) simp_all
  finally have c: "(2 ^ 64 - n) mod 2 ^ 32 = 2 ^ 32 - n" .
  have "signed_index fid False = int_of_size_t (((fid + 1) * (2 ^ 64 - 1)) mod 2 ^ 64)"
    by (simp add: signed_index_def a)
  also have "\<dots> = - n"
    unfolding int_of_size_t_def b c Let_def using n by simp
  finally show ?thesis
    by (simp add: n_def)
qed

lemma is_consistent_cases:
  assumes "fid < length F"
  shows "is_consistent F fid s d =
           (if has_directed_edge (F ! fid) s d then Inr False
            else if has_directed_edge (F ! fid) d s then Inr True
            else Inl Invalid_face)"
proof -
  obtain f0 f1 f2 where f: "F ! fid = (f0, f1, f2)"
    by (cases "F ! fid")
  show ?thesis
    using assms by (simp add: is_consistent_def has_directed_edge_def f elem_def)
qed

lemma signed_adj_face_cases:
  assumes "F \<noteq> []" and "length F < 2 ^ 31"
  shows "signed_adj_face F s d ei =
           (let fid = ei mod length F in
            if has_directed_edge (F ! fid) s d then Inr (- (int fid + 1))
            else if has_directed_edge (F ! fid) d s then Inr (int fid + 1)
            else Inl Invalid_face)"
proof -
  have lt: "ei mod length F < length F"
    using assms(1) by simp
  then have small: "ei mod length F + 1 < 2 ^ 31"
    using assms(2) by linarith
  show ?thesis
    using assms(1) lt
    by (simp add: signed_adj_face_def edge_index_to_face_index_def is_consistent_cases
          signed_index_True [OF small] signed_index_False [OF small] Let_def)
qed

text \<open>
  Claim C2, as amended. For a non-manifold unique edge \<open>(s, d)\<close> (the only edges for
  which \<open>cache_edge\<close> computes the signed indices and hands them to
  \<open>order_facets_around_edge\<close>), with fewer than \<open>2^31\<close> faces: when the list of signed
  indices is computed, it has one entry per incident half-edge occurrence, and the entry
  of an occurrence owned by the face \<open>fid\<close> is \<open>-(fid+1)\<close> when the face contains the
  directed pair \<open>(s, d)\<close>, and \<open>+(fid+1)\<close> when it does not, in which case it contains
  \<open>(d, s)\<close>. The sign is the opposite of the one the claim states.
\<close>

theorem signed_index_negative_on_matching_direction:
  assumes "signed_adj_faces F s d adj_faces = Inr signed"
    and "length F < 2 ^ 31"
    and "k < length adj_faces"
  shows "length signed = length adj_faces \<and>
         (let fid = adj_faces ! k mod length F in
          signed ! k =
            (if has_directed_edge (F ! fid) s d then - (int fid + 1) else int fid + 1) \<and>
          (\<not> has_directed_edge (F ! fid) s d \<longrightarrow> has_directed_edge (F ! fid) d s))"
proof -
  have len: "length signed = length adj_faces"
    using assms(1) by (simp add: signed_adj_faces_def mapM_Inr_length)
  have k: "signed_adj_face F s d (adj_faces ! k) = Inr (signed ! k)"
    using assms(1,3) by (simp add: signed_adj_faces_def mapM_Inr_nth)
  have "F \<noteq> []"
    using k by (auto simp: signed_adj_face_def edge_index_to_face_index_def)
  define fid where "fid = adj_faces ! k mod length F"
  have eq: "Inr (signed ! k) =
              (if has_directed_edge (F ! fid) s d then Inr (- (int fid + 1))
               else if has_directed_edge (F ! fid) d s then Inr (int fid + 1)
               else Inl Invalid_face)"
    using signed_adj_face_cases [OF \<open>F \<noteq> []\<close> assms(2), of s d "adj_faces ! k"] k
    by (simp add: Let_def fid_def)
  have "signed ! k = (if has_directed_edge (F ! fid) s d then - (int fid + 1) else int fid + 1) \<and>
        (\<not> has_directed_edge (F ! fid) s d \<longrightarrow> has_directed_edge (F ! fid) d s)"
  proof (cases "has_directed_edge (F ! fid) s d")
    case True
    then show ?thesis using eq by simp
  next
    case False
    then show ?thesis using eq by (cases "has_directed_edge (F ! fid) d s") simp_all
  qed
  then show ?thesis
    using len by (simp add: Let_def fid_def)
qed

theorem signed_index_negative_on_matching_direction_witness:
  "signed_adj_faces [(0, 1, 2), (0, 1, 3), (1, 0, 4)] 0 1 [6, 7, 8] = Inr [- 1, - 2, 3] \<and>
   has_directed_edge (0, 1, 3) 0 1 \<and> [- 1, - 2, 3] ! 1 = - (int 1 + 1) \<and>
   \<not> has_directed_edge (1, 0, 4) 0 1 \<and> has_directed_edge (1, 0, 4) 1 0 \<and>
   [- 1, - 2, 3 :: int] ! 2 = int 2 + 1"
proof -
  have run: "signed_adj_faces [(0, 1, 2), (0, 1, 3), (1, 0, 4)] 0 1 [6, 7, 8] = Inr [- 1, - 2, 3]"
    by (simp add: signed_adj_faces_def signed_adj_face_cases has_directed_edge_def)
  have small: "length [(0, 1, 2), (0, 1, 3), (1, 0, 4) :: face] < 2 ^ 31"
    by simp
  have "(1::nat) < length [6, 7, 8 :: nat]" and "(2::nat) < length [6, 7, 8 :: nat]"
    by simp_all
  from signed_index_negative_on_matching_direction [OF run small this(1)]
    signed_index_negative_on_matching_direction [OF run small this(2)] run
  show ?thesis
    by (simp add: has_directed_edge_def)
qed

theorem signed_index_positive_on_matching_direction_counterexample:
  "has_directed_edge ([(0, 1, 2), (0, 1, 3), (0, 1, 4)] ! (6 mod 3)) 0 1 \<and>
   signed_adj_faces [(0, 1, 2), (0, 1, 3), (0, 1, 4)] 0 1 [6, 7, 8] = Inr [- 1, - 2, - 3]"
  by (simp add: signed_adj_faces_def signed_adj_face_cases has_directed_edge_def)

subsection \<open>Bounding boxes and candidates\<close>






subsection \<open>The face-level overload\<close>

text \<open>
  Claim C9. When the face-level \<open>extract_cells\<close> returns, with the patch ids \<open>P\<close> that
  \<open>extract_manifold_patches\<close> gave: the patch-level call returned a table
  \<open>per_patch_cells\<close> and the same count, the output has one row per face, the row of the
  face \<open>i\<close> is the row \<open>P[i]\<close> of \<open>per_patch_cells\<close>, and two faces of one patch have equal
  rows.
\<close>

theorem faces_of_a_patch_share_cells:
  assumes "extract_cells_VF col V F = Some (Inr (cells, num_cells))"
    and "unique_edge_map col F = (E, uE, EMAP, uE2E)"
    and "P = extract_manifold_patches col F EMAP uE2E"
  shows "\<exists>per_patch_cells.
           extract_cells col V F P E uE uE2E EMAP = Some (Inr (per_patch_cells, num_cells)) \<and>
           length cells = length F \<and>
           (\<forall>i<length F. i < length P \<and> P ! i < length per_patch_cells \<and>
              cells ! i = per_patch_cells ! (P ! i)) \<and>
           (\<forall>i<length F. \<forall>j<length F. P ! i = P ! j \<longrightarrow> cells ! i = cells ! j)"
proof -
  from assms obtain per_patch_cells where
    run: "extract_cells col V F P E uE uE2E EMAP = Some (Inr (per_patch_cells, num_cells))"
    and dist: "distribute_cells (length F) P per_patch_cells = Inr cells"
    by (auto simp: extract_cells_VF_def Let_def split: option.splits sum.splits prod.splits)
  have m: "mapM (\<lambda>i. err_bind (elem P i) (elem per_patch_cells)) [0..<length F] = Inr cells"
    using dist by (simp add: distribute_cells_def)
  have len: "length cells = length F"
    using mapM_Inr_length [OF m] by simp
  have row: "i < length P \<and> P ! i < length per_patch_cells \<and> cells ! i = per_patch_cells ! (P ! i)"
    if "i < length F" for i
  proof -
    have "err_bind (elem P ([0..<length F] ! i)) (elem per_patch_cells) = Inr (cells ! i)"
      using mapM_Inr_nth [OF m, of i] that by simp
    then show ?thesis
      using that by (auto simp: err_bind_eq_Inr elem_eq_Inr)
  qed
  have "\<forall>i<length F. \<forall>j<length F. P ! i = P ! j \<longrightarrow> cells ! i = cells ! j"
    using row by simp
  then show ?thesis
    using run len row by blast
qed

subsection \<open>The count of the relabeling\<close>

lemma relabel_cell_count:
  "relabel_cell old (m, c) = Inr (new, m', c') \<Longrightarrow> c \<le> c' \<and> length m' = length m"
  by (auto simp: relabel_cell_def err_bind_eq_Inr split: if_splits)

lemma relabel_patch_count:
  assumes "relabel_patch i (raw, m, c) = Inr (raw', m', c')"
  shows "c \<le> c'"
proof -
  from assms obtain o0 o1 n0 m1 c1 n1 where
    "relabel_cell o0 (m, c) = Inr (n0, m1, c1)" and "relabel_cell o1 (m1, c1) = Inr (n1, m', c')"
    by (auto simp: relabel_patch_def err_bind_eq_Inr)
  then show ?thesis
    using relabel_cell_count [of o0 m c n0 m1 c1] relabel_cell_count [of o1 m1 c1 n1 m' c']
    by simp
qed

lemma relabel_loop_count:
  "foldM relabel_patch is (raw, m, c) = Inr (raw', m', c') \<Longrightarrow> c \<le> c'"
proof (induction "is" arbitrary: raw m c)
  case Nil
  then show ?case by simp
next
  case (Cons i "is")
  from Cons.prems obtain raw1 m1 c1 where
    s: "relabel_patch i (raw, m, c) = Inr (raw1, m1, c1)"
    and r: "foldM relabel_patch is (raw1, m1, c1) = Inr (raw', m', c')"
    by (auto split: sum.splits)
  show ?case
    using relabel_patch_count [OF s] Cons.IH [OF r] by simp
qed

lemma relabel_count: "relabel num_patches num_raw_cells raw = Inr (cells, count) \<Longrightarrow> 1 \<le> count"
  by (auto simp: relabel_def Let_def err_bind_eq_Inr dest: relabel_loop_count)

lemma resolve_cells_relabel:
  assumes "resolve_cells col V F P E uE2E EMAP num_patches raw_cells num_raw_cells = Inr r"
  shows "\<exists>raw'. relabel num_patches num_raw_cells raw' = Inr r"
  using assms
  by (auto simp: resolve_cells_def Let_def err_bind_eq_Inr split: prod.splits)

lemma extract_cells_stages:
  assumes "extract_cells col V F P E uE uE2E EMAP = Some (Inr r)"
  shows "\<exists>num_patches raw_cells num_raw_cells.
           num_patches_of P = Inr num_patches \<and>
           extract_cells_single_component col V F P uE uE2E EMAP =
             Some (Inr (raw_cells, num_raw_cells)) \<and>
           resolve_cells col V F P E uE2E EMAP num_patches raw_cells num_raw_cells = Inr r"
  using assms
  by (auto simp: extract_cells_def split: sum.splits option.splits prod.splits)

text \<open>
  Claim C10. Whenever the patch-level \<open>extract_cells\<close> returns, the count it returns is
  at least 1: the counter is 1 after the infinite cell has been given the id 0, before
  the first patch is looked at, and the loop never decreases it.
\<close>

theorem returned_count_is_positive:
  assumes "extract_cells col V F P E uE uE2E EMAP = Some (Inr (cells, count))"
  shows "1 \<le> count"
proof -
  from extract_cells_stages [OF assms] obtain num_patches raw_cells num_raw_cells where
    "resolve_cells col V F P E uE2E EMAP num_patches raw_cells num_raw_cells = Inr (cells, count)"
    by blast
  from resolve_cells_relabel [OF this] obtain raw' where
    "relabel num_patches num_raw_cells raw' = Inr (cells, count)" ..
  then show ?thesis
    by (rule relabel_count)
qed

subsection \<open>The table of cells as the list of its entries\<close>

lemma length_cell_entries: "length (cell_entries cells) = 2 * length cells"
  by (induction cells) (auto simp: cell_entries_def)

lemma cell_entries_Cons: "cell_entries ((a, b) # cells) = a # b # cell_entries cells"
  by (simp add: cell_entries_def)

lemma cell_entries_nth:
  "p < length cells \<Longrightarrow>
   cell_entries cells ! (2 * p) = fst (cells ! p) \<and> cell_entries cells ! (2 * p + 1) = snd (cells ! p)"
proof (induction cells arbitrary: p)
  case Nil
  then show ?case by simp
next
  case (Cons r cells)
  obtain a b where r: "r = (a, b)" by (cases r)
  show ?case
  proof (cases p)
    case 0
    then show ?thesis by (simp add: r cell_entries_Cons)
  next
    case (Suc q)
    then show ?thesis using Cons.IH [of q] Cons.prems by (simp add: r cell_entries_Cons)
  qed
qed

lemma cell_entries_update:
  "p < length cells \<Longrightarrow>
   cell_entries (cells[p := (a, b)]) = (cell_entries cells)[2 * p := a, 2 * p + 1 := b]"
proof (induction cells arbitrary: p)
  case Nil
  then show ?case by simp
next
  case (Cons r cells)
  obtain c d where r: "r = (c, d)" by (cases r)
  show ?case
  proof (cases p)
    case 0
    then show ?thesis by (simp add: r cell_entries_Cons)
  next
    case (Suc q)
    then show ?thesis using Cons.IH [of q] Cons.prems by (simp add: r cell_entries_Cons)
  qed
qed

lemma cell_at_entries:
  "cell_at cells p side = Inr v \<longleftrightarrow>
     p < length cells \<and> side < 2 \<and> cell_entries cells ! (2 * p + side) = v"
proof (cases "p < length cells \<and> side < 2")
  case True
  then have "side = 0 \<or> side = 1" by linarith
  then show ?thesis
    using True cell_entries_nth [of p cells] by (auto simp: cell_at_def)
next
  case False
  then show ?thesis by (auto simp: cell_at_def)
qed

lemma cell_set_entries:
  assumes "cell_set cells p side v = Inr cells'"
  shows "p < length cells \<and> side < 2 \<and> length cells' = length cells \<and>
         cell_entries cells' = (cell_entries cells)[2 * p + side := v]"
proof -
  from assms have ps: "p < length cells" "side < 2"
    and c: "cells' = cells[p := (if side = 0 then (v, snd (cells ! p)) else (fst (cells ! p), v))]"
    by (auto simp: cell_set_def split: if_splits)
  from ps(2) have "side = 0 \<or> side = 1" by linarith
  then have "cell_entries cells' = (cell_entries cells)[2 * p + side := v]"
  proof
    assume s: "side = 0"
    have "(cell_entries cells)[2 * p := v, 2 * p + 1 := snd (cells ! p)] = (cell_entries cells)[2 * p := v]"
      using cell_entries_nth [OF ps(1)]
      by (metis add.commute list_update_id list_update_swap n_not_Suc_n plus_1_eq_Suc)
    then show ?thesis
      using ps(1) by (simp add: c s cell_entries_update)
  next
    assume s: "side = 1"
    have "(cell_entries cells)[2 * p := fst (cells ! p)] = cell_entries cells"
      using cell_entries_nth [OF ps(1)] by (metis list_update_id)
    then show ?thesis
      using ps(1) by (simp add: c s cell_entries_update)
  qed
  then show ?thesis
    using ps c by simp
qed

lemma cell_set_defined:
  "p < length cells \<Longrightarrow> side < 2 \<Longrightarrow> \<exists>cells'. cell_set cells p side v = Inr cells'"
  by (simp add: cell_set_def)

subsection \<open>What a peel does to the table\<close>

lemma unlabeled_update:
  assumes "k < length xs" and "xs ! k = INVALID" and "c \<noteq> INVALID"
  shows "unlabeled (xs[k := c]) + 1 = unlabeled xs"
  using assms
proof (induction xs arbitrary: k)
  case Nil
  then show ?case by simp
next
  case (Cons x xs)
  then show ?case by (cases k) (auto simp: unlabeled_def)
qed

lemma labels_only_refl: "labels_only c xs xs"
  by (simp add: labels_only_def list_all2_same)

lemma labels_only_trans:
  assumes "labels_only c xs ys" and "labels_only c ys zs"
  shows "labels_only c xs zs"
  unfolding labels_only_def
proof (rule list_all2_trans [OF _ assms [unfolded labels_only_def]])
  fix x y z
  assume "y = x \<or> x = INVALID \<and> y = c" and "z = y \<or> y = INVALID \<and> z = c"
  then show "z = x \<or> x = INVALID \<and> z = c" by auto
qed

lemma labels_only_update:
  assumes "k < length xs" and "xs ! k = INVALID"
  shows "labels_only c xs (xs[k := c])"
  unfolding labels_only_def list_all2_conv_all_nth
  using assms by (auto simp: nth_list_update)

lemma labels_only_length: "labels_only c xs ys \<Longrightarrow> length ys = length xs"
  by (simp add: labels_only_def list_all2_lengthD)

lemma labels_only_nth:
  "labels_only c xs ys \<Longrightarrow> k < length xs \<Longrightarrow> ys ! k = xs ! k \<or> (xs ! k = INVALID \<and> ys ! k = c)"
  by (auto simp: labels_only_def list_all2_conv_all_nth)

lemma labels_only_unlabeled:
  assumes "labels_only c xs ys" and "c \<noteq> INVALID"
  shows "unlabeled ys \<le> unlabeled xs"
  using assms(1) unfolding labels_only_def
proof (induction rule: list_all2_induct)
  case Nil
  then show ?case by simp
next
  case (Cons x xs y ys)
  then show ?case using assms(2) by (auto simp: unlabeled_def)
qed

text \<open>One step of the inner loop either changes nothing, or labels one unlabeled entry
  and puts it on the queue.\<close>

lemma peel_edge_effect:
  assumes "peel_edge env c side ei (Q, cells) = Inr (Q', cells')"
  shows "(Q' = Q \<and> cells' = cells) \<or>
         (\<exists>np ns. Q' = Q @ [(np, ns)] \<and> np < length cells \<and> ns < 2 \<and>
            cell_entries cells ! (2 * np + ns) = INVALID \<and> length cells' = length cells \<and>
            cell_entries cells' = (cell_entries cells)[2 * np + ns := c])"
proof -
  from assms obtain cons next_cons np ns v where
    v: "cell_at cells np ns = Inr v"
    and r: "(if v = INVALID then err_bind (cell_set cells np ns c) (\<lambda>cells'. Inr (Q @ [(np, ns)], cells'))
            else if v = c then Inr (Q, cells) else Inl Cell_assignment_inconsistency) = Inr (Q', cells')"
    by (auto simp: peel_edge_def err_bind_eq_Inr)
  show ?thesis
  proof (cases "v = INVALID")
    case True
    with r obtain cells1 where s: "cell_set cells np ns c = Inr cells1"
      and e: "Q' = Q @ [(np, ns)]" "cells' = cells1"
      by (auto simp: err_bind_eq_Inr)
    from v True have "cell_entries cells ! (2 * np + ns) = INVALID"
      by (simp add: cell_at_entries)
    then show ?thesis
      using cell_set_entries [OF s] e by auto
  next
    case False
    with r show ?thesis by (auto split: if_splits)
  qed
qed

lemma peel_edge_step:
  assumes "peel_edge env c side ei st = Inr st'" and "c \<noteq> INVALID"
  shows "length (snd st') = length (snd st) \<and>
         labels_only c (cell_entries (snd st)) (cell_entries (snd st')) \<and>
         peel_measure st' \<le> peel_measure st"
proof -
  obtain Q cells Q' cells' where st: "st = (Q, cells)" "st' = (Q', cells')"
    by (cases st, cases st')
  from peel_edge_effect [OF assms(1) [unfolded st]] show ?thesis
  proof
    assume "Q' = Q \<and> cells' = cells"
    then show ?thesis by (simp add: st labels_only_refl)
  next
    assume "\<exists>np ns. Q' = Q @ [(np, ns)] \<and> np < length cells \<and> ns < 2 \<and>
            cell_entries cells ! (2 * np + ns) = INVALID \<and> length cells' = length cells \<and>
            cell_entries cells' = (cell_entries cells)[2 * np + ns := c]"
    then obtain np ns where q: "Q' = Q @ [(np, ns)]" and r: "np < length cells" "ns < 2"
      and i: "cell_entries cells ! (2 * np + ns) = INVALID" and l: "length cells' = length cells"
      and e: "cell_entries cells' = (cell_entries cells)[2 * np + ns := c]"
      by blast
    have k: "2 * np + ns < length (cell_entries cells)"
      using r by (simp add: length_cell_entries)
    have "unlabeled (cell_entries cells') + 1 = unlabeled (cell_entries cells)"
      unfolding e by (rule unlabeled_update [OF k i assms(2)])
    then have "peel_measure st' \<le> peel_measure st"
      by (simp add: peel_measure_def st q)
    then show ?thesis
      using l labels_only_update [OF k i, of c] by (simp add: st e)
  qed
qed

lemma peel_entry_step:
  assumes "peel_entry env c entry st = Inr st'" and "c \<noteq> INVALID"
  shows "length (snd st') = length (snd st) \<and>
         labels_only c (cell_entries (snd st)) (cell_entries (snd st')) \<and>
         peel_measure st' \<le> peel_measure st"
proof -
  obtain patch_id side where entry: "entry = (patch_id, side)"
    by (cases entry)
  from assms(1) obtain adj_edges where
    f: "foldM (peel_edge env c side) adj_edges st = Inr st'"
    by (auto simp: peel_entry_def entry err_bind_eq_Inr)
  show ?thesis
  proof (rule foldM_invariant [OF f])
    show "length (snd st) = length (snd st) \<and>
          labels_only c (cell_entries (snd st)) (cell_entries (snd st)) \<and>
          peel_measure st \<le> peel_measure st"
      by (simp add: labels_only_refl)
  next
    fix ei t t'
    assume i: "length (snd t) = length (snd st) \<and>
               labels_only c (cell_entries (snd st)) (cell_entries (snd t)) \<and>
               peel_measure t \<le> peel_measure st"
      and s: "peel_edge env c side ei t = Inr t'"
    from peel_edge_step [OF s assms(2)] i
    show "length (snd t') = length (snd st) \<and>
          labels_only c (cell_entries (snd st)) (cell_entries (snd t')) \<and>
          peel_measure t' \<le> peel_measure st"
      by (auto intro: labels_only_trans)
  qed
qed

lemma peel_loop_Nil: "peel_loop env cell_idx [] cells = Some (Inr cells)"
  by (subst peel_loop.simps) simp

lemma peel_loop_Cons:
  "peel_loop env cell_idx (entry # Q') cells =
     (case peel_entry env cell_idx entry (Q', cells) of
        Inl e \<Rightarrow> Some (Inl e)
      | Inr (Q'', cells') \<Rightarrow> peel_loop env cell_idx Q'' cells')"
  by (subst peel_loop.simps) simp

text \<open>The \<open>while\<close> loop returns for every cell id other than \<open>INVALID\<close>, and only labels
  unlabeled entries.\<close>

lemma peel_loop_returns:
  assumes "c \<noteq> INVALID"
  shows "\<exists>r. peel_loop env c Q cells = Some r \<and>
           (\<forall>cells'. r = Inr cells' \<longrightarrow>
              length cells' = length cells \<and>
              labels_only c (cell_entries cells) (cell_entries cells'))"
proof (induction "peel_measure (Q, cells)" arbitrary: Q cells rule: less_induct)
  case less
  show ?case
  proof (cases Q)
    case Nil
    then show ?thesis by (simp add: peel_loop_Nil labels_only_refl)
  next
    case (Cons entry Q0)
    show ?thesis
    proof (cases "peel_entry env c entry (Q0, cells)")
      case (Inl e)
      then show ?thesis by (simp add: Cons peel_loop_Cons)
    next
      case (Inr st')
      obtain Q1 cells1 where st': "st' = (Q1, cells1)" by (cases st')
      from peel_entry_step [OF Inr assms]
      have l: "length cells1 = length cells"
        and lo: "labels_only c (cell_entries cells) (cell_entries cells1)"
        and m: "peel_measure (Q1, cells1) \<le> peel_measure (Q0, cells)"
        by (simp_all add: st')
      have "peel_measure (Q1, cells1) < peel_measure (Q, cells)"
        using m by (simp add: peel_measure_def Cons)
      from less [OF this] obtain r where
        r: "peel_loop env c Q1 cells1 = Some r"
        and p: "\<forall>cells'. r = Inr cells' \<longrightarrow>
                  length cells' = length cells1 \<and>
                  labels_only c (cell_entries cells1) (cell_entries cells')"
        by blast
      have "peel_loop env c Q cells = Some r"
        by (simp add: Cons peel_loop_Cons Inr st' r)
      then show ?thesis
        using p l lo by (auto intro: labels_only_trans)
    qed
  qed
qed

lemma peel_cell_bd_returns:
  assumes "c \<noteq> INVALID" and "cell_at cells p s = Inr INVALID"
  shows "\<exists>r. peel_cell_bd env p s c cells = Some r \<and>
           (\<forall>cells'. r = Inr cells' \<longrightarrow>
              length cells' = length cells \<and>
              labels_only c (cell_entries cells) (cell_entries cells') \<and>
              cell_entries cells' ! (2 * p + s) = c \<and>
              unlabeled (cell_entries cells') < unlabeled (cell_entries cells))"
proof -
  from assms(2) have ps: "p < length cells" "s < 2"
    and inv: "cell_entries cells ! (2 * p + s) = INVALID"
    by (simp_all add: cell_at_entries)
  from cell_set_defined [OF ps] obtain cells1 where s1: "cell_set cells p s c = Inr cells1" ..
  note e1 = cell_set_entries [OF s1]
  have k: "2 * p + s < length (cell_entries cells)"
    using ps by (simp add: length_cell_entries)
  have lo1: "labels_only c (cell_entries cells) (cell_entries cells1)"
    using labels_only_update [OF k inv, of c] e1 by simp
  have u1: "unlabeled (cell_entries cells1) + 1 = unlabeled (cell_entries cells)"
    using unlabeled_update [OF k inv assms(1)] e1 by simp
  from peel_loop_returns [OF assms(1), of env "[(p, s)]" cells1] obtain r where
    r: "peel_loop env c [(p, s)] cells1 = Some r"
    and pr: "\<forall>cells'. r = Inr cells' \<longrightarrow>
               length cells' = length cells1 \<and>
               labels_only c (cell_entries cells1) (cell_entries cells')"
    by blast
  have run: "peel_cell_bd env p s c cells = Some r"
    by (simp add: peel_cell_bd_def s1 r)
  have "length cells' = length cells \<and>
        labels_only c (cell_entries cells) (cell_entries cells') \<and>
        cell_entries cells' ! (2 * p + s) = c \<and>
        unlabeled (cell_entries cells') < unlabeled (cell_entries cells)"
    if "r = Inr cells'" for cells'
  proof -
    from pr that have l: "length cells' = length cells1"
      and lo: "labels_only c (cell_entries cells1) (cell_entries cells')"
      by simp_all
    have k1: "2 * p + s < length (cell_entries cells1)"
      using k e1 by simp
    have "cell_entries cells1 ! (2 * p + s) = c"
      using e1 k by simp
    then have at: "cell_entries cells' ! (2 * p + s) = c"
      using labels_only_nth [OF lo k1] by auto
    have "unlabeled (cell_entries cells') \<le> unlabeled (cell_entries cells1)"
      by (rule labels_only_unlabeled [OF lo assms(1)])
    then show ?thesis
      using l e1 at u1 labels_only_trans [OF lo1 lo] by simp
  qed
  then show ?thesis
    using run by blast
qed

subsection \<open>The loop over the patches\<close>

lemma unlabeled_positive:
  assumes "k < length xs" and "xs ! k = INVALID"
  shows "0 < unlabeled xs"
proof -
  have "INVALID \<in> set xs"
    using assms nth_mem [of k xs] by simp
  then have "filter (\<lambda>v. v = INVALID) xs \<noteq> []"
    by (simp add: filter_empty_conv)
  then show ?thesis
    by (simp add: unlabeled_def)
qed

lemma label_side_step:
  assumes inv: "cells_inv n (cells, count)" and small: "2 * n \<le> INVALID"
    and i: "i < n" and s: "s < 2"
  shows "\<exists>r. label_side env i s (cells, count) = Some r \<and>
           (\<forall>cells' count'. r = Inr (cells', count') \<longrightarrow>
              cells_inv n (cells', count') \<and>
              cell_entries cells' ! (2 * i + s) \<noteq> INVALID \<and>
              (\<forall>k<2 * n. cell_entries cells ! k \<noteq> INVALID \<longrightarrow>
                 cell_entries cells' ! k \<noteq> INVALID))"
proof -
  from inv have len: "length cells = n"
    and vals: "\<forall>v \<in> set (cell_entries cells). v = INVALID \<or> v < count"
    and onto: "\<forall>c<count. c \<in> set (cell_entries cells)"
    and cnt: "count + unlabeled (cell_entries cells) \<le> 2 * n"
    by (simp_all add: cells_inv_def)
  have k: "2 * i + s < length (cell_entries cells)"
    using i s len by (simp add: length_cell_entries)
  define v where "v = cell_entries cells ! (2 * i + s)"
  have at: "cell_at cells i s = Inr v"
    using i s len by (simp add: cell_at_entries v_def)
  show ?thesis
  proof (cases "v = INVALID")
    case False
    then have "label_side env i s (cells, count) = Some (Inr (cells, count))"
      by (simp add: label_side_def at)
    then show ?thesis
      using inv False by (simp add: v_def)
  next
    case True
    have "0 < unlabeled (cell_entries cells)"
      using unlabeled_positive [OF k] True by (simp add: v_def)
    then have c: "count \<noteq> INVALID"
      using cnt small by linarith
    from at True have at': "cell_at cells i s = Inr INVALID" by simp
    from peel_cell_bd_returns [OF c at', of env] obtain r where
      r: "peel_cell_bd env i s count cells = Some r"
      and p: "\<forall>cells'. r = Inr cells' \<longrightarrow>
                length cells' = length cells \<and>
                labels_only count (cell_entries cells) (cell_entries cells') \<and>
                cell_entries cells' ! (2 * i + s) = count \<and>
                unlabeled (cell_entries cells') < unlabeled (cell_entries cells)"
      by blast
    show ?thesis
    proof (cases r)
      case (Inl e)
      then show ?thesis by (simp add: label_side_def at' r)
    next
      case (Inr cells')
      then have run: "label_side env i s (cells, count) = Some (Inr (cells', count + 1))"
        by (simp add: label_side_def at' r)
      from p Inr have l: "length cells' = length cells"
        and lo: "labels_only count (cell_entries cells) (cell_entries cells')"
        and seed: "cell_entries cells' ! (2 * i + s) = count"
        and u: "unlabeled (cell_entries cells') < unlabeled (cell_entries cells)"
        by simp_all
      have le: "length (cell_entries cells') = length (cell_entries cells)"
        using l by (simp add: length_cell_entries)
      have vals': "\<forall>w \<in> set (cell_entries cells'). w = INVALID \<or> w < count + 1"
      proof
        fix w
        assume "w \<in> set (cell_entries cells')"
        then obtain j where j: "j < length (cell_entries cells')" "cell_entries cells' ! j = w"
          by (auto simp: in_set_conv_nth)
        then have jl: "j < length (cell_entries cells)"
          using le by simp
        then have old: "cell_entries cells ! j = INVALID \<or> cell_entries cells ! j < count"
          using vals nth_mem [OF jl] by blast
        from labels_only_nth [OF lo jl]
        have "w = cell_entries cells ! j \<or> w = count"
          using j(2) by blast
        then show "w = INVALID \<or> w < count + 1"
          using old by auto
      qed
      have onto': "\<forall>d<count + 1. d \<in> set (cell_entries cells')"
      proof (intro allI impI)
        fix d
        assume d: "d < count + 1"
        show "d \<in> set (cell_entries cells')"
        proof (cases "d = count")
          case True
          have "cell_entries cells' ! (2 * i + s) \<in> set (cell_entries cells')"
            using k le by (intro nth_mem) simp
          then show ?thesis
            using seed True by simp
        next
          case False
          then have "d < count" using d by simp
          then have "d \<in> set (cell_entries cells)" using onto by simp
          then obtain j where j: "j < length (cell_entries cells)" "cell_entries cells ! j = d"
            by (auto simp: in_set_conv_nth)
          have "d \<noteq> INVALID"
            using \<open>d < count\<close> cnt small by linarith
          then have "cell_entries cells' ! j = d"
            using labels_only_nth [OF lo j(1)] j(2) by auto
          moreover have "cell_entries cells' ! j \<in> set (cell_entries cells')"
            using j(1) le by (intro nth_mem) simp
          ultimately show ?thesis
            by simp
        qed
      qed
      have keep: "\<forall>j<2 * n. cell_entries cells ! j \<noteq> INVALID \<longrightarrow> cell_entries cells' ! j \<noteq> INVALID"
      proof (intro allI impI)
        fix j
        assume "j < 2 * n" and "cell_entries cells ! j \<noteq> INVALID"
        then show "cell_entries cells' ! j \<noteq> INVALID"
          using labels_only_nth [OF lo, of j] len by (simp add: length_cell_entries)
      qed
      have ci: "cells_inv n (cells', count + 1)"
        using vals' onto' u cnt l len by (simp add: cells_inv_def)
      have sd: "cell_entries cells' ! (2 * i + s) \<noteq> INVALID"
        using seed c by simp
      show ?thesis
      proof (intro exI conjI allI impI)
        show "label_side env i s (cells, count) = Some (Inr (cells', count + 1))"
          by (rule run)
      next
        fix cells'' count''
        assume "Inr (cells', count + 1) = (Inr (cells'', count'') :: error + cells \<times> nat)"
        then have e: "cells'' = cells'" "count'' = count + 1"
          by simp_all
        show "cells_inv n (cells'', count'')"
          using ci e by simp
        show "cell_entries cells'' ! (2 * i + s) \<noteq> INVALID"
          using sd e by simp
        fix k
        assume "k < 2 * n" and "cell_entries cells ! k \<noteq> INVALID"
        then show "cell_entries cells'' ! k \<noteq> INVALID"
          using keep e by simp
      qed
    qed
  qed
qed

lemma label_patch_step:
  assumes inv: "cells_inv n (cells, count)" and small: "2 * n \<le> INVALID" and i: "i < n"
  shows "\<exists>r. label_patch env i (cells, count) = Some r \<and>
           (\<forall>cells' count'. r = Inr (cells', count') \<longrightarrow>
              cells_inv n (cells', count') \<and>
              cell_entries cells' ! (2 * i) \<noteq> INVALID \<and>
              cell_entries cells' ! (2 * i + 1) \<noteq> INVALID \<and>
              (\<forall>k<2 * n. cell_entries cells ! k \<noteq> INVALID \<longrightarrow>
                 cell_entries cells' ! k \<noteq> INVALID))"
proof -
  have two: "(0::nat) < 2" "(1::nat) < 2"
    by simp_all
  from label_side_step [OF inv small i two(1), of env] obtain r0 where
    r0: "label_side env i 0 (cells, count) = Some r0"
    and p0: "\<forall>cells' count'. r0 = Inr (cells', count') \<longrightarrow>
               cells_inv n (cells', count') \<and>
               cell_entries cells' ! (2 * i + 0) \<noteq> INVALID \<and>
               (\<forall>k<2 * n. cell_entries cells ! k \<noteq> INVALID \<longrightarrow>
                  cell_entries cells' ! k \<noteq> INVALID)"
    by blast
  show ?thesis
  proof (cases r0)
    case (Inl e)
    then show ?thesis by (simp add: label_patch_def r0)
  next
    case (Inr st1)
    obtain cells1 count1 where st1: "st1 = (cells1, count1)" by (cases st1)
    from p0 Inr st1 have inv1: "cells_inv n (cells1, count1)"
      and l0: "cell_entries cells1 ! (2 * i) \<noteq> INVALID"
      and keep0: "\<forall>k<2 * n. cell_entries cells ! k \<noteq> INVALID \<longrightarrow>
                    cell_entries cells1 ! k \<noteq> INVALID"
      by simp_all
    from label_side_step [OF inv1 small i two(2), of env] obtain r1 where
      r1: "label_side env i 1 (cells1, count1) = Some r1"
      and p1: "\<forall>cells' count'. r1 = Inr (cells', count') \<longrightarrow>
                 cells_inv n (cells', count') \<and>
                 cell_entries cells' ! (2 * i + 1) \<noteq> INVALID \<and>
                 (\<forall>k<2 * n. cell_entries cells1 ! k \<noteq> INVALID \<longrightarrow>
                    cell_entries cells' ! k \<noteq> INVALID)"
      by blast
    have run: "label_patch env i (cells, count) = Some r1"
      using r1 by (simp add: label_patch_def r0 Inr st1)
    have "2 * i < 2 * n"
      using i by simp
    then show ?thesis
      using run p1 l0 keep0 by auto
  qed
qed

lemma label_loop:
  assumes inv: "cells_inv n st0" and small: "2 * n \<le> INVALID" and m: "m \<le> n"
  shows "\<exists>r. foldMO (label_patch env) [0..<m] st0 = Some r \<and>
           (\<forall>cells count. r = Inr (cells, count) \<longrightarrow>
              cells_inv n (cells, count) \<and>
              (\<forall>k<2 * m. cell_entries cells ! k \<noteq> INVALID))"
  using m
proof (induction m)
  case 0
  obtain cells count where "st0 = (cells, count)" by (cases st0)
  then show ?case using inv by simp
next
  case (Suc m)
  then obtain r where r: "foldMO (label_patch env) [0..<m] st0 = Some r"
    and p: "\<forall>cells count. r = Inr (cells, count) \<longrightarrow>
              cells_inv n (cells, count) \<and> (\<forall>k<2 * m. cell_entries cells ! k \<noteq> INVALID)"
    by auto
  show ?case
  proof (cases r)
    case (Inl e)
    then show ?thesis by (simp add: foldMO_append r)
  next
    case (Inr st)
    obtain cells count where st: "st = (cells, count)" by (cases st)
    from p Inr st have inv1: "cells_inv n (cells, count)"
      and before: "\<forall>k<2 * m. cell_entries cells ! k \<noteq> INVALID"
      by simp_all
    have "m < n" using Suc.prems by simp
    from label_patch_step [OF inv1 small this, of env] obtain r' where
      r': "label_patch env m (cells, count) = Some r'"
      and p': "\<forall>cells' count'. r' = Inr (cells', count') \<longrightarrow>
                 cells_inv n (cells', count') \<and>
                 cell_entries cells' ! (2 * m) \<noteq> INVALID \<and>
                 cell_entries cells' ! (2 * m + 1) \<noteq> INVALID \<and>
                 (\<forall>k<2 * n. cell_entries cells ! k \<noteq> INVALID \<longrightarrow>
                    cell_entries cells' ! k \<noteq> INVALID)"
      by blast
    have run: "foldMO (label_patch env) [0..<Suc m] st0 = Some r'"
      by (cases r') (simp_all add: foldMO_append r Inr st r')
    have "cells_inv n (cells', count') \<and> (\<forall>k<2 * Suc m. cell_entries cells' ! k \<noteq> INVALID)"
      if e: "r' = Inr (cells', count')" for cells' count'
    proof -
      from p' e have a: "cells_inv n (cells', count')"
        and b: "cell_entries cells' ! (2 * m) \<noteq> INVALID"
        and c: "cell_entries cells' ! (2 * m + 1) \<noteq> INVALID"
        and d: "\<forall>k<2 * n. cell_entries cells ! k \<noteq> INVALID \<longrightarrow>
                  cell_entries cells' ! k \<noteq> INVALID"
        by simp_all
      have "cell_entries cells' ! k \<noteq> INVALID" if "k < 2 * Suc m" for k
      proof -
        from that have "k < 2 * m \<or> k = 2 * m \<or> k = 2 * m + 1" by arith
        moreover have "k < 2 * m \<Longrightarrow> k < 2 * n" using \<open>m < n\<close> by simp
        ultimately show ?thesis using b c d before by auto
      qed
      then show ?thesis using a by simp
    qed
    then show ?thesis using run by blast
  qed
qed

lemma initial_cells_inv: "cells_inv n (replicate n (INVALID, INVALID), 0)"
proof -
  have flat: "cell_entries (replicate n (INVALID, INVALID)) = replicate (2 * n) INVALID"
    by (induction n) (simp_all add: cell_entries_def)
  show ?thesis
    by (simp add: cells_inv_def flat unlabeled_def)
qed

text \<open>With fewer than \<open>2^30\<close> patches the single-component extraction returns (a result or
  a failure): no peel runs forever.\<close>

lemma extract_cells_single_component_returns:
  assumes "num_patches_of P = Inr n" and "2 * n \<le> INVALID"
  shows "\<exists>r. extract_cells_single_component col V F P uE uE2E EMAP = Some r"
proof (cases "build_edge_cache (order_facets_around_edge col V F) F P uE uE2E n")
  case (Inl e)
  then show ?thesis by (simp add: extract_cells_single_component_def assms(1))
next
  case (Inr c)
  from label_loop [OF initial_cells_inv assms(2) order_refl, of "peel_env_of F P EMAP c"]
  show ?thesis
    by (auto simp: extract_cells_single_component_def assms(1) Inr)
qed

text \<open>
  Claim C6. With \<open>n\<close> patches, \<open>2 * n\<close> at most \<open>INVALID\<close> (so that no cell id can be
  \<open>INVALID\<close> itself): when \<open>extract_cells_single_component\<close> returns the table \<open>cells\<close>
  and the count, the table has \<open>n\<close> rows, each of its \<open>2 * n\<close> entries differs from
  \<open>INVALID\<close> and is below the count, and every id below the count is the entry of some
  patch and side.
\<close>

theorem every_side_labeled_with_a_counted_cell:
  assumes "extract_cells_single_component col V F P uE uE2E EMAP = Some (Inr (cells, count))"
    and "num_patches_of P = Inr n"
    and "2 * n \<le> INVALID"
  shows "length cells = n \<and>
         (\<forall>p<n. \<forall>side<2. \<exists>v. cell_at cells p side = Inr v \<and> v \<noteq> INVALID \<and> v < count) \<and>
         (\<forall>c<count. \<exists>p<n. \<exists>side<2. cell_at cells p side = Inr c)"
proof -
  from assms(1,2) obtain ec where
    run: "foldMO (label_patch (peel_env_of F P EMAP ec)) [0..<n]
            (replicate n (INVALID, INVALID), 0) = Some (Inr (cells, count))"
    by (auto simp: extract_cells_single_component_def split: sum.splits)
  from label_loop [OF initial_cells_inv assms(3) order_refl, of "peel_env_of F P EMAP ec"] run
  have inv: "cells_inv n (cells, count)"
    and lab: "\<forall>k<2 * n. cell_entries cells ! k \<noteq> INVALID"
    by auto
  from inv have len: "length cells = n"
    and vals: "\<forall>v \<in> set (cell_entries cells). v = INVALID \<or> v < count"
    and onto: "\<forall>c<count. c \<in> set (cell_entries cells)"
    by (simp_all add: cells_inv_def)
  have a: "\<exists>v. cell_at cells p side = Inr v \<and> v \<noteq> INVALID \<and> v < count"
    if "p < n" and "side < 2" for p side
  proof -
    have k: "2 * p + side < 2 * n" using that by linarith
    then have "cell_entries cells ! (2 * p + side) \<in> set (cell_entries cells)"
      using len by (simp add: length_cell_entries)
    then show ?thesis
      using vals lab k that len by (auto simp: cell_at_entries)
  qed
  have b: "\<exists>p<n. \<exists>side<2. cell_at cells p side = Inr c" if "c < count" for c
  proof -
    from onto that obtain k where k: "k < length (cell_entries cells)" "cell_entries cells ! k = c"
      by (auto simp: in_set_conv_nth)
    have k2: "k < 2 * n" using k(1) len by (simp add: length_cell_entries)
    have "k = 2 * (k div 2) + k mod 2" by simp
    moreover have "k div 2 < n" using k2 by linarith
    moreover have "k mod 2 < 2" by simp
    ultimately have "cell_at cells (k div 2) (k mod 2) = Inr c"
      using k(2) len by (simp add: cell_at_entries)
    then show ?thesis
      using \<open>k div 2 < n\<close> \<open>k mod 2 < 2\<close> by blast
  qed
  show ?thesis
    using len a b by blast
qed

subsection \<open>Steps of the peel\<close>

lemma peel_visits_abort:
  assumes "peel_visits env c Q0 cells0 patch_id side ei Q cells"
    and "peel_edge env c side ei (Q, cells) = Inl e"
  shows "peel_loop env c Q0 cells0 = Some (Inl e)"
  using assms
proof (induction rule: peel_visits.induct)
  case (this_entry patch_id pre ei post side Q0 cells0 Q cells)
  have "foldM (peel_edge env c side) (pre @ ei # post) (Q0, cells0) = Inl e"
    using this_entry by (simp add: foldM_append)
  then have "peel_entry env c (patch_id, side) (Q0, cells0) = Inl e"
    using this_entry(1) by (simp add: peel_entry_def)
  then show ?case
    by (simp add: peel_loop_Cons)
next
  case (later_entry entry Q0 cells0 Q1 cells1 patch_id side ei Q cells)
  then show ?case
    by (simp add: peel_loop_Cons)
qed

lemma peel_edge_mismatch:
  assumes "peel_neighbor env side ei = Inr (cons, next_cons, np, ns)"
    and "cell_at cells np ns = Inr v"
    and "v \<noteq> INVALID" and "v \<noteq> c"
  shows "peel_edge env c side ei (Q, cells) = Inl Cell_assignment_inconsistency"
  using assms by (simp add: peel_edge_def)

lemma seeds_peel_abort:
  assumes "seeds_peel env is st i side count cells"
    and "peel_cell_bd env i side count cells = Some (Inl e)"
  shows "foldMO (label_patch env) is st = Some (Inl e)"
  using assms
proof (induction rule: seeds_peel.induct)
  case (first_side cells i count "is")
  then show ?case
    by (simp add: label_patch_def label_side_def)
next
  case (second_side i st cells count "is")
  then show ?case
    by (simp add: label_patch_def label_side_def)
next
  case (later_patch i st st' "is" j side count cells)
  then show ?case
    by simp
qed

text \<open>Every entry of the queue has a side 0 or 1: an entry is put on the queue only after
  the table has been read at it.\<close>

lemma peel_edge_sides:
  assumes "peel_edge env c side ei (Q, cells) = Inr (Q', cells')"
    and "\<forall>(p, s) \<in> set Q. s < 2"
  shows "\<forall>(p, s) \<in> set Q'. s < 2"
  using peel_edge_effect [OF assms(1)] assms(2) by auto

lemma peel_edges_sides:
  assumes "foldM (peel_edge env c side) es st = Inr st'"
    and "\<forall>(p, s) \<in> set (fst st). s < 2"
  shows "\<forall>(p, s) \<in> set (fst st'). s < 2"
proof (rule foldM_invariant [OF assms(1), where I = "\<lambda>t. \<forall>(p, s) \<in> set (fst t). s < 2"])
  show "\<forall>(p, s) \<in> set (fst st). s < 2"
    by (rule assms(2))
next
  fix ei t t'
  assume i: "\<forall>(p, s) \<in> set (fst t). s < 2" and s: "peel_edge env c side ei t = Inr t'"
  obtain Q cells Q' cells' where t: "t = (Q, cells)" "t' = (Q', cells')"
    by (cases t, cases t')
  show "\<forall>(p, s) \<in> set (fst t'). s < 2"
    using peel_edge_sides [of env c side ei Q cells Q' cells'] i s by (simp add: t)
qed

lemma peel_visits_side:
  assumes "peel_visits env c Q0 cells0 patch_id side ei Q cells"
    and "\<forall>(p, s) \<in> set Q0. s < 2"
  shows "side < 2"
  using assms
proof (induction rule: peel_visits.induct)
  case (this_entry patch_id pre ei post side Q0 cells0 Q cells)
  then show ?case by simp
next
  case (later_entry entry Q0 cells0 Q1 cells1 patch_id side ei Q cells)
  obtain p s where entry: "entry = (p, s)" by (cases entry)
  from later_entry(1) obtain es where
    "foldM (peel_edge env c s) es (Q0, cells0) = Inr (Q1, cells1)"
    by (auto simp: peel_entry_def entry err_bind_eq_Inr)
  from peel_edges_sides [OF this] later_entry.prems
  have "\<forall>(p, s) \<in> set Q1. s < 2" by simp
  then show ?case
    by (rule later_entry.IH)
qed

lemma peel_neighbor_side:
  assumes "peel_neighbor env side ei = Inr (cons, next_cons, np, ns)"
  shows "ns = next_patch_side cons next_cons side"
  using assms
  by (auto simp: peel_neighbor_def err_bind_eq_Inr Let_def split: if_splits)

lemma peel_edge_labels:
  assumes "peel_neighbor env side ei = Inr (cons, next_cons, np, ns)"
    and "cell_at cells np ns = Inr INVALID"
  shows "\<exists>cells'. peel_edge env c side ei (Q, cells) = Inr (Q @ [(np, ns)], cells') \<and>
           cell_at cells' np ns = Inr c"
proof -
  from assms(2) have r: "np < length cells" "ns < 2"
    by (simp_all add: cell_at_entries)
  from cell_set_defined [OF r] obtain cells' where s: "cell_set cells np ns c = Inr cells'" ..
  have "2 * np + ns < length (cell_entries cells)"
    using r by (simp add: length_cell_entries)
  then have "cell_at cells' np ns = Inr c"
    using cell_set_entries [OF s] by (simp add: cell_at_entries)
  moreover have "peel_edge env c side ei (Q, cells) = Inr (Q @ [(np, ns)], cells')"
    using assms s by (simp add: peel_edge_def)
  ultimately show ?thesis by blast
qed

subsection \<open>The example arrangements, evaluated\<close>

lemma replicate_numeral_unfold: "replicate (numeral k) x = x # replicate (pred_numeral k) x"
  by (simp add: numeral_eq_Suc)

lemma list_update_Cons_numeral: "(x # xs)[numeral k := y] = x # xs[pred_numeral k := y]"
  by (simp add: numeral_eq_Suc)

lemmas eval_defs = elem_def cell_at_def cell_set_def push_back_at_def upt_rec Let_def
  INVALID_def INVALID_size_t_def num_patches_of_def replicate_numeral_unfold
  list_update_Cons_numeral

lemmas cache_defs = build_edge_cache_def cache_edge_def signed_adj_faces_def
  signed_adj_face_cases has_directed_edge_def remember_patch_edge_def
  edge_index_to_face_index_def

lemmas peel_defs = peel_env_of_def label_patch_def label_side_def peel_cell_bd_def
  peel_loop_Nil peel_loop_Cons peel_entry_def peel_edge_def peel_neighbor_def find_edge_def
  next_index_def next_patch_side_def edge_index_to_face_index_def

lemmas resolve_defs = resolve_cells_def group_faces_def outer_of_component_def nesting_of_def
  embedded_cells_of_def embed_component_def embed_patch_def embed_side_def relabel_def
  relabel_patch_def relabel_cell_def

lemma fan_num_patches: "num_patches_of fan_P = Inr 3"
  by (simp add: num_patches_of_def fan_P_def)

lemma fan_build_edge_cache:
  "build_edge_cache (order_facets_around_edge fan_col fan_V fan_F) fan_F fan_P fan_uE fan_uE2E 3 =
     Inr fan_cache"
  by (simp add: cache_defs fan_col_def fan_F_def fan_P_def fan_uE_def fan_uE2E_def fan_cache_def
        eval_defs)

lemma fan_run_single:
  "extract_cells_single_component fan_col fan_V fan_F fan_P fan_uE fan_uE2E fan_EMAP =
     Some (Inr ([(0, 1), (1, 2), (2, 0)], 3))"
  unfolding extract_cells_single_component_def fan_num_patches fan_build_edge_cache sum.case
  by (simp add: peel_defs fan_cache_def fan_F_def fan_P_def fan_EMAP_def eval_defs)

lemma fan_resolve:
  "resolve_cells fan_col fan_V fan_F fan_P fan_E fan_uE2E fan_EMAP 3 [(0, 1), (1, 2), (2, 0)] 3 =
     Inr ([(0, 1), (1, 2), (2, 0)], 3)"
  by (simp add: resolve_defs fan_col_def fan_F_def fan_P_def eval_defs)

lemma fan_run:
  "extract_cells fan_col fan_V fan_F fan_P fan_E fan_uE fan_uE2E fan_EMAP =
     Some (Inr ([(0, 1), (1, 2), (2, 0)], 3))"
  unfolding extract_cells_def fan_num_patches fan_run_single sum.case option.case prod.case
  by (simp only: fan_resolve)

lemma fan_collaborators:
  "unique_edge_map fan_col fan_F = (fan_E, fan_uE, fan_EMAP, fan_uE2E)"
  "extract_manifold_patches fan_col fan_F fan_EMAP fan_uE2E = fan_P"
  by (simp_all add: fan_col_def)

lemma fan_run_VF:
  "extract_cells_VF fan_col fan_V fan_F = Some (Inr ([(0, 1), (1, 2), (2, 0)], 3))"
  unfolding extract_cells_VF_def fan_collaborators prod.case Let_def fan_run option.case sum.case
  by (simp add: distribute_cells_def fan_F_def fan_P_def eval_defs)

lemma twisted_build_edge_cache:
  "build_edge_cache (order_facets_around_edge twisted_col fan_V fan_F) fan_F fan_P fan_uE fan_uE2E 3 =
     Inr twisted_cache"
  by (simp add: cache_defs twisted_col_def fan_col_def fan_F_def fan_P_def fan_uE_def fan_uE2E_def
        twisted_cache_def eval_defs)

lemma twisted_first_peel:
  "label_side twisted_env 0 0 (replicate 3 (INVALID, INVALID), 0) =
     Some (Inr ([(0, INVALID), (INVALID, 0), (INVALID, INVALID)], 1))"
  by (simp add: twisted_env_def twisted_cache_def peel_defs fan_F_def fan_P_def fan_EMAP_def eval_defs)

lemma lone_run_single:
  "extract_cells_single_component lone_col lone_V lone_F [0] lone_uE lone_uE2E lone_EMAP =
     Some (Inr ([(0, 1)], 2))"
  by (simp add: extract_cells_single_component_def cache_defs peel_defs lone_col_def lone_F_def
        lone_uE_def lone_uE2E_def lone_EMAP_def eval_defs)

lemma lone_run:
  "extract_cells lone_col lone_V lone_F [0] lone_E lone_uE lone_uE2E lone_EMAP =
     Some (Inr ([(0, 1)], 2))"
proof -
  have "resolve_cells lone_col lone_V lone_F [0] lone_E lone_uE2E lone_EMAP 1 [(0, 1)] 2 =
          Inr ([(0, 1)], 2)"
    by (simp add: resolve_defs lone_col_def lone_F_def eval_defs)
  moreover have "num_patches_of [0] = Inr 1"
    by (simp add: num_patches_of_def)
  ultimately show ?thesis
    unfolding extract_cells_def lone_run_single by simp
qed

lemmas nest_defs = nest_component_def candidates_of_def candidate_step_def bbox_intersects_def
  queries_of_def get_triangle_center_def record_candidate_def bounding_boxes_def grow_bbox_def
  vertex_min_def vertex_max_def colwise_max_def colwise_min_def coord_def

lemma rival_run_single:
  "extract_cells_single_component rival_col rival_V rival_F rival_P rival_uE rival_uE2E rival_EMAP =
     Some (Inr ([(0, 1), (2, 3), (4, 5), (6, 7)], 8))"
  by (simp add: extract_cells_single_component_def cache_defs peel_defs rival_col_def rival_F_def
        rival_P_def rival_uE_def rival_uE2E_def rival_EMAP_def eval_defs)

lemma rival_boxes:
  "bounding_boxes rival_V rival_F [0, 1, 2, 3] 4 =
     Inr ([(0, 0, 0), (1, 0, 0), (2, 0, 0), (3, 0, 0)],
          [(9, 9, 0), (10, 9, 0), (11, 9, 0), (12, 9, 0)])"
  by (simp add: nest_defs rival_V_def rival_F_def eval_defs)

lemma rival_nesting_of:
  "nesting_of rival_col rival_V rival_F rival_P rival_uE2E rival_EMAP
     [(0, 1), (2, 3), (4, 5), (6, 7)] 8 [0, 1, 2, 3] 4 [[0], [1], [2], [3]] [0, 1, 2, 3]
     [0, 2, 4, 6] = Inr rival_nesting"
  unfolding nesting_of_def Let_def rival_boxes
  by (simp add: nest_defs rival_col_def rival_inside_def rival_V_def rival_F_def rival_P_def
        rival_nesting_def eval_defs)

lemma rival_embedded:
  "embedded_cells_of 4 [0, 2, 4, 6] (nest_ambient_comps rival_nesting)
     (nest_ambient_cells rival_nesting) 8 =
     Inr [8, INVALID_size_t, 1, INVALID_size_t, 1, INVALID_size_t, 3, INVALID_size_t]"
  by (simp add: embedded_cells_of_def embed_component_def rival_nesting_def elem_def upt_rec
        Let_def replicate_numeral_unfold list_update_Cons_numeral INVALID_size_t_def)

lemma rival_resolve:
  "resolve_cells rival_col rival_V rival_F rival_P rival_E rival_uE2E rival_EMAP 4
     [(0, 1), (2, 3), (4, 5), (6, 7)] 8 = Inr ([(0, 1), (1, 2), (1, 3), (2, 4)], 5)"
proof -
  have c: "facet_components rival_col rival_E rival_EMAP rival_uE2E = ([0, 1, 2, 3], [1, 1, 1, 1])"
    by (simp add: rival_col_def)
  have g: "group_faces [0, 1, 2, 3] (length rival_F) 4 = Inr [[0], [1], [2], [3]]"
    by (simp add: group_faces_def rival_F_def eval_defs)
  have o: "mapM (outer_of_component rival_col rival_V rival_F rival_P
                   [(0, 1), (2, 3), (4, 5), (6, 7)]) [[0], [1], [2], [3]] =
             Inr [(0, 0, 0), (1, 0, 2), (2, 0, 4), (3, 0, 6)]"
    by (simp add: outer_of_component_def rival_col_def rival_P_def eval_defs)
  have lc: "length [1, 1, 1, 1 :: nat] = 4"
    by simp
  have mf: "map fst [(0, 0, 0), (1, 0, 2), (2, 0, 4), (3, 0 :: nat, 6 :: nat)] = [0, 1, 2, 3 :: nat]"
    by simp
  have ms: "map (\<lambda>x. snd (snd x)) [(0, 0, 0), (1, 0, 2), (2, 0, 4), (3 :: nat, 0 :: nat, 6)] =
              [0, 2, 4, 6 :: nat]"
    by simp
  have r: "foldM (embed_patch [8, INVALID_size_t, 1, INVALID_size_t, 1, INVALID_size_t, 3,
                               INVALID_size_t]) [0..<4] [(0, 1), (2, 3), (4, 5), (6, 7)] =
             Inr [(8, 1), (1, 3), (1, 5), (3, 7)]"
    by (simp add: embed_patch_def embed_side_def eval_defs)
  have l: "relabel 4 8 [(8, 1), (1, 3), (1, 5), (3, 7)] = Inr ([(0, 1), (1, 2), (1, 3), (2, 4)], 5)"
    by (simp add: relabel_def relabel_patch_def relabel_cell_def eval_defs)
  show ?thesis
    unfolding resolve_cells_def c prod.case Let_def lc
    by (simp only: g err_bind_Inr o mf ms rival_nesting_of rival_embedded r l)
qed

lemma rival_num_patches: "num_patches_of rival_P = Inr 4"
  by (simp add: num_patches_of_def rival_P_def)

lemma rival_run:
  "extract_cells rival_col rival_V rival_F rival_P rival_E rival_uE rival_uE2E rival_EMAP =
     Some (Inr ([(0, 1), (1, 2), (1, 3), (2, 4)], 5))"
  unfolding extract_cells_def rival_num_patches rival_run_single sum.case option.case prod.case
  by (simp only: rival_resolve)

lemma pair_run:
  "extract_cells pair_col pair_V pair_F [0, 0] pair_E pair_uE pair_uE2E pair_EMAP =
     Some (Inr ([(0, 1)], 2))"
proof -
  have s: "extract_cells_single_component pair_col pair_V pair_F [0, 0] pair_uE pair_uE2E pair_EMAP =
             Some (Inr ([(0, 1)], 2))"
    by (simp add: extract_cells_single_component_def cache_defs peel_defs pair_col_def pair_F_def
          pair_uE_def pair_uE2E_def pair_EMAP_def eval_defs)
  have r: "resolve_cells pair_col pair_V pair_F [0, 0] pair_E pair_uE2E pair_EMAP 1 [(0, 1)] 2 =
             Inr ([(0, 1)], 2)"
    by (simp add: resolve_defs pair_col_def pair_F_def eval_defs)
  have n: "num_patches_of [0, 0] = Inr 1"
    by (simp add: num_patches_of_def)
  show ?thesis
    unfolding extract_cells_def n s sum.case option.case prod.case by (simp only: r)
qed

lemma pair_collaborators:
  "unique_edge_map pair_col pair_F = (pair_E, pair_uE, pair_EMAP, pair_uE2E)"
  "[0, 0] = extract_manifold_patches pair_col pair_F pair_EMAP pair_uE2E"
  by (simp_all add: pair_col_def)

lemma pair_run_VF: "extract_cells_VF pair_col pair_V pair_F = Some (Inr ([(0, 1), (0, 1)], 2))"
proof -
  have "distribute_cells (length pair_F) [0, 0] [(0, 1)] = Inr [(0, 1), (0, 1)]"
    by (simp add: distribute_cells_def pair_F_def eval_defs)
  then show ?thesis
    unfolding extract_cells_VF_def pair_collaborators(1) prod.case Let_def
      pair_collaborators(2) [symmetric] pair_run option.case sum.case
    by simp
qed

subsection \<open>The side reached across an edge\<close>

text \<open>
  Claim C1, as amended. In a peel started by \<open>peel_cell_bd\<close> from any seed, at every step
  the loop reaches (an entry \<open>(patch_id, side)\<close> popped from the queue, and a half-edge
  occurrence \<open>ei\<close> of that patch on a non-manifold edge) for which the neighbour is found:
  the side is 0 or 1, and the side of the neighbour's patch is the opposite side
  \<open>1 - side\<close> when the two orientation flags are equal, and the same side when they
  differ; this is the side that is labeled with the cell and put on the queue when it
  is still unlabeled. The claim states the two cases the other way round.
\<close>

theorem neighbor_side_same_iff_flags_differ:
  assumes "cell_set cells0 seed_patch_id seed_patch_side cell_idx = Inr cells1"
    and "peel_visits env cell_idx [(seed_patch_id, seed_patch_side)] cells1 patch_id side ei Q cells"
    and "peel_neighbor env side ei = Inr (cons, next_cons, np, ns)"
  shows "side < 2 \<and>
         ns = (if next_cons = cons then 1 - side else side) \<and>
         (cell_at cells np ns = Inr INVALID \<longrightarrow>
            (\<exists>cells'. peel_edge env cell_idx side ei (Q, cells) = Inr (Q @ [(np, ns)], cells') \<and>
               cell_at cells' np ns = Inr cell_idx))"
proof -
  have "seed_patch_side < 2"
    using cell_set_entries [OF assms(1)] by simp
  then have "\<forall>(p, s) \<in> set [(seed_patch_id, seed_patch_side)]. s < 2"
    by simp
  from peel_visits_side [OF assms(2) this] have side: "side < 2" .
  then have "side = 0 \<or> side = 1" by linarith
  then have "ns = (if next_cons = cons then 1 - side else side)"
    using peel_neighbor_side [OF assms(3)] by (auto simp: next_patch_side_def)
  then show ?thesis
    using side peel_edge_labels [OF assms(3), of cells cell_idx Q] by blast
qed

lemma fan_first_step:
  "peel_visits fan_env 0 [(0, 0)] [(0, INVALID), (INVALID, INVALID), (INVALID, INVALID)] 0 0 6 []
     [(0, INVALID), (INVALID, INVALID), (INVALID, INVALID)]"
proof (rule peel_visits.this_entry [where pre = "[]" and post = "[]"])
  show "elem (env_patch_edge_adj fan_env) 0 = Inr ([] @ [6])"
    by (simp add: fan_env_def fan_cache_def peel_env_of_def elem_def)
  show "foldM (peel_edge fan_env 0 0) []
          ([], [(0, INVALID), (INVALID, INVALID), (INVALID, INVALID)]) =
        Inr ([], [(0, INVALID), (INVALID, INVALID), (INVALID, INVALID)])"
    by simp
qed

lemma fan_first_neighbor: "peel_neighbor fan_env 0 6 = Inr (False, False, 2, 1)"
  by (simp add: fan_env_def fan_cache_def peel_defs fan_F_def fan_P_def fan_EMAP_def eval_defs)

lemma fan_seed:
  "cell_set (replicate 3 (INVALID, INVALID)) 0 0 0 =
     Inr [(0, INVALID), (INVALID, INVALID), (INVALID, INVALID)]"
  by (simp add: eval_defs)

theorem neighbor_side_same_iff_flags_differ_witness:
  "peel_neighbor fan_env 0 6 = Inr (False, False, 2, 1) \<and> (0::nat) < 2 \<and> (1::nat) = 1 - 0 \<and>
   (\<exists>cells'. peel_edge fan_env 0 0 6
                ([], [(0, INVALID), (INVALID, INVALID), (INVALID, INVALID)]) =
              Inr ([] @ [(2, 1)], cells') \<and> cell_at cells' 2 1 = Inr 0)"
proof -
  have "cell_at [(0, INVALID), (INVALID, INVALID), (INVALID, INVALID)] 2 1 = Inr INVALID"
    by (simp add: eval_defs)
  then show ?thesis
    using neighbor_side_same_iff_flags_differ [OF fan_seed fan_first_step fan_first_neighbor]
      fan_first_neighbor
    by simp
qed

theorem neighbor_side_same_on_equal_flags_counterexample:
  "build_edge_cache (order_facets_around_edge fan_col fan_V fan_F) fan_F fan_P fan_uE fan_uE2E 3 =
     Inr fan_cache \<and>
   fan_env = peel_env_of fan_F fan_P fan_EMAP fan_cache \<and>
   peel_visits fan_env 0 [(0, 0)] [(0, INVALID), (INVALID, INVALID), (INVALID, INVALID)] 0 0 6 []
     [(0, INVALID), (INVALID, INVALID), (INVALID, INVALID)] \<and>
   peel_neighbor fan_env 0 6 = Inr (False, False, 2, 1) \<and>
   peel_edge fan_env 0 0 6 ([], [(0, INVALID), (INVALID, INVALID), (INVALID, INVALID)]) =
     Inr ([(2, 1)], [(0, INVALID), (INVALID, INVALID), (INVALID, 0)])"
proof -
  have "peel_edge fan_env 0 0 6 ([], [(0, INVALID), (INVALID, INVALID), (INVALID, INVALID)]) =
          Inr ([(2, 1)], [(0, INVALID), (INVALID, INVALID), (INVALID, 0)])"
    by (simp add: peel_edge_def fan_first_neighbor eval_defs)
  then show ?thesis
    using fan_build_edge_cache fan_first_step fan_first_neighbor by (simp add: fan_env_def)
qed

subsection \<open>A neighbour labeled with another cell\<close>

text \<open>
  Claim C4. Assertions being enabled: in a run of \<open>extract_cells_single_component\<close> (the
  cache was built, the loop over the patches calls \<open>peel_cell_bd\<close> for a seed with the
  cell id \<open>cell_idx\<close>, and that peel reaches a step), if the neighbour's patch and side
  computed at the step hold a cell id that is neither \<open>INVALID\<close> nor \<open>cell_idx\<close>, then
  \<open>extract_cells_single_component\<close>, the patch-level \<open>extract_cells\<close> and the face-level
  \<open>extract_cells\<close> all end with the failure of the assertion, and return no table.
\<close>

theorem labeled_with_other_cell_aborts:
  assumes "num_patches_of P = Inr num_patches"
    and "build_edge_cache (order_facets_around_edge col V F) F P uE uE2E num_patches = Inr c"
    and "env = peel_env_of F P EMAP c"
    and "seeds_peel env [0..<num_patches] (replicate num_patches (INVALID, INVALID), 0)
           seed_patch_id seed_patch_side cell_idx cells0"
    and "cell_set cells0 seed_patch_id seed_patch_side cell_idx = Inr cells1"
    and "peel_visits env cell_idx [(seed_patch_id, seed_patch_side)] cells1 patch_id side ei Q cells"
    and "peel_neighbor env side ei = Inr (cons, next_cons, np, ns)"
    and "cell_at cells np ns = Inr v"
    and "v \<noteq> INVALID"
    and "v \<noteq> cell_idx"
  shows "extract_cells_single_component col V F P uE uE2E EMAP =
           Some (Inl Cell_assignment_inconsistency) \<and>
         extract_cells col V F P E uE uE2E EMAP = Some (Inl Cell_assignment_inconsistency) \<and>
         (unique_edge_map col F = (E, uE, EMAP, uE2E) \<and>
          extract_manifold_patches col F EMAP uE2E = P \<longrightarrow>
            extract_cells_VF col V F = Some (Inl Cell_assignment_inconsistency))"
proof -
  have "peel_edge env cell_idx side ei (Q, cells) = Inl Cell_assignment_inconsistency"
    by (rule peel_edge_mismatch [OF assms(7-10)])
  from peel_visits_abort [OF assms(6) this]
  have "peel_cell_bd env seed_patch_id seed_patch_side cell_idx cells0 =
          Some (Inl Cell_assignment_inconsistency)"
    by (simp add: peel_cell_bd_def assms(5))
  from seeds_peel_abort [OF assms(4) this]
  have single: "extract_cells_single_component col V F P uE uE2E EMAP =
                  Some (Inl Cell_assignment_inconsistency)"
    by (simp add: extract_cells_single_component_def assms(1,2,3))
  then have patch: "extract_cells col V F P E uE uE2E EMAP =
                      Some (Inl Cell_assignment_inconsistency)"
    by (simp add: extract_cells_def assms(1))
  then have "extract_cells_VF col V F = Some (Inl Cell_assignment_inconsistency)"
    if "unique_edge_map col F = (E, uE, EMAP, uE2E)"
      and "extract_manifold_patches col F EMAP uE2E = P"
    using that by (simp add: extract_cells_VF_def)
  then show ?thesis
    using single patch by blast
qed

lemma twisted_seed:
  "seeds_peel twisted_env [0..<3] (replicate 3 (INVALID, INVALID), 0) 0 1 1
     [(0, INVALID), (INVALID, 0), (INVALID, INVALID)]"
proof -
  have up: "[0..<3] = 0 # [1..<3]"
    by (simp add: upt_rec)
  have "cell_at [(0, INVALID), (INVALID, 0), (INVALID, INVALID)] 0 1 = Inr INVALID"
    by (simp add: eval_defs)
  from seeds_peel.second_side [OF twisted_first_peel this] show ?thesis
    unfolding up .
qed

lemma twisted_step:
  "peel_visits twisted_env 1 [(0, 1)] [(0, 1), (INVALID, 0), (INVALID, INVALID)] 0 1 6 []
     [(0, 1), (INVALID, 0), (INVALID, INVALID)]"
proof (rule peel_visits.this_entry [where pre = "[]" and post = "[]"])
  show "elem (env_patch_edge_adj twisted_env) 0 = Inr ([] @ [6])"
    by (simp add: twisted_env_def twisted_cache_def peel_env_of_def elem_def)
  show "foldM (peel_edge twisted_env 1 1) [] ([], [(0, 1), (INVALID, 0), (INVALID, INVALID)]) =
        Inr ([], [(0, 1), (INVALID, 0), (INVALID, INVALID)])"
    by simp
qed

theorem labeled_with_other_cell_aborts_witness:
  "extract_cells_single_component twisted_col fan_V fan_F fan_P fan_uE fan_uE2E fan_EMAP =
     Some (Inl Cell_assignment_inconsistency) \<and>
   extract_cells twisted_col fan_V fan_F fan_P fan_E fan_uE fan_uE2E fan_EMAP =
     Some (Inl Cell_assignment_inconsistency) \<and>
   extract_cells_VF twisted_col fan_V fan_F = Some (Inl Cell_assignment_inconsistency)"
proof -
  have set: "cell_set [(0, INVALID), (INVALID, 0), (INVALID, INVALID)] 0 1 1 =
               Inr [(0, 1), (INVALID, 0), (INVALID, INVALID)]"
    by (simp add: eval_defs)
  have nb: "peel_neighbor twisted_env 1 6 = Inr (False, False, 0, 0)"
    by (simp add: twisted_env_def twisted_cache_def peel_defs fan_F_def fan_P_def fan_EMAP_def
          eval_defs)
  have at: "cell_at [(0, 1), (INVALID, 0), (INVALID, INVALID)] 0 0 = Inr 0"
    by (simp add: eval_defs)
  have ne: "(0::nat) \<noteq> INVALID" "(0::nat) \<noteq> 1"
    by (simp_all add: INVALID_def)
  have col: "unique_edge_map twisted_col fan_F = (fan_E, fan_uE, fan_EMAP, fan_uE2E) \<and>
             extract_manifold_patches twisted_col fan_F fan_EMAP fan_uE2E = fan_P"
    by (simp add: twisted_col_def fan_col_def)
  from labeled_with_other_cell_aborts [OF fan_num_patches twisted_build_edge_cache
      twisted_env_def twisted_seed set twisted_step nb at ne, of fan_E] col
  show ?thesis
    by simp
qed

subsection \<open>The malformed-face failure\<close>

lemma foldM_Inl:
  assumes "x \<in> set xs" and "\<And>s. \<exists>e. f x s = Inl e"
  shows "\<exists>e. foldM f xs s0 = Inl e"
  using assms(1)
proof (induction xs arbitrary: s0)
  case Nil
  then show ?case by simp
next
  case (Cons y ys)
  show ?case
  proof (cases "f y s0")
    case (Inl e)
    then show ?thesis by simp
  next
    case (Inr s1)
    show ?thesis
    proof (cases "x = y")
      case True
      then show ?thesis using assms(2) [of s0] Inr by simp
    next
      case False
      then have "x \<in> set ys" using Cons.prems by simp
      from Cons.IH [OF this, of s1] show ?thesis by (simp add: Inr)
    qed
  qed
qed

lemma cache_edge_malformed:
  assumes "i < length uE" and "uE ! i = (s, d)" and "i < length uE2E"
    and "2 < length (uE2E ! i)" and "ei \<in> set (uE2E ! i)" and "F \<noteq> []"
    and "\<not> has_directed_edge (F ! (ei mod length F)) s d"
    and "\<not> has_directed_edge (F ! (ei mod length F)) d s"
  shows "\<exists>e. cache_edge ofae F P uE uE2E i c = Inl e"
proof -
  have lt: "ei mod length F < length F"
    using assms(6) by simp
  have "signed_adj_face F s d ei = Inl Invalid_face"
    using assms(6,7,8) is_consistent_cases [OF lt, of s d]
    by (simp add: signed_adj_face_def edge_index_to_face_index_def)
  from mapM_Inl [of ei "uE2E ! i" "signed_adj_face F s d", OF assms(5) this] obtain e where
    "signed_adj_faces F s d (uE2E ! i) = Inl e"
    by (auto simp: signed_adj_faces_def)
  then have "cache_edge ofae F P uE uE2E i c = Inl e"
    using assms(1-4) by (simp add: cache_edge_def elem_in_range)
  then show ?thesis ..
qed

text \<open>
  Claim C8, as amended. For a unique edge \<open>(s, d)\<close> with more than two incident
  half-edge occurrences, and a face \<open>fid\<close> owning one of them: when the face contains
  neither \<open>(s, d)\<close> nor \<open>(d, s)\<close> as consecutive vertices of a cyclic rotation, the test
  raises the exception, and \<open>extract_cells_single_component\<close>, the patch-level and the
  face-level \<open>extract_cells\<close> end with a failure and return no table; when the face
  contains one of the two, the test returns a flag. (The faces of an edge with one or two
  occurrences are not tested.)
\<close>

theorem malformed_face_on_non_manifold_edge_aborts:
  assumes "i < length uE" and "uE ! i = (s, d)" and "i < length uE2E"
    and "2 < length (uE2E ! i)" and "ei \<in> set (uE2E ! i)" and "F \<noteq> []"
    and "fid = ei mod length F"
  shows "(\<not> has_directed_edge (F ! fid) s d \<and> \<not> has_directed_edge (F ! fid) d s \<longrightarrow>
            is_consistent F fid s d = Inl Invalid_face \<and>
            (\<exists>e. extract_cells_single_component col V F P uE uE2E EMAP = Some (Inl e)) \<and>
            (\<exists>e. extract_cells col V F P E uE uE2E EMAP = Some (Inl e)) \<and>
            (unique_edge_map col F = (E, uE, EMAP, uE2E) \<and>
             extract_manifold_patches col F EMAP uE2E = P \<longrightarrow>
               (\<exists>e. extract_cells_VF col V F = Some (Inl e)))) \<and>
         (has_directed_edge (F ! fid) s d \<or> has_directed_edge (F ! fid) d s \<longrightarrow>
            (\<exists>b. is_consistent F fid s d = Inr b))"
proof -
  have lt: "fid < length F"
    using assms(6,7) by simp
  note cases = is_consistent_cases [OF lt, of s d]
  have good: "\<exists>b. is_consistent F fid s d = Inr b"
    if "has_directed_edge (F ! fid) s d \<or> has_directed_edge (F ! fid) d s"
    using that cases by auto
  have bad: "is_consistent F fid s d = Inl Invalid_face \<and>
             (\<exists>e. extract_cells_single_component col V F P uE uE2E EMAP = Some (Inl e)) \<and>
             (\<exists>e. extract_cells col V F P E uE uE2E EMAP = Some (Inl e)) \<and>
             (unique_edge_map col F = (E, uE, EMAP, uE2E) \<and>
              extract_manifold_patches col F EMAP uE2E = P \<longrightarrow>
                (\<exists>e. extract_cells_VF col V F = Some (Inl e)))"
    if neither: "\<not> has_directed_edge (F ! fid) s d \<and> \<not> has_directed_edge (F ! fid) d s"
  proof -
    have test: "is_consistent F fid s d = Inl Invalid_face"
      using neither cases by simp
    have single: "\<exists>e. extract_cells_single_component col V F P uE uE2E EMAP = Some (Inl e)"
    proof (cases "num_patches_of P")
      case (Inl e)
      then show ?thesis by (simp add: extract_cells_single_component_def)
    next
      case (Inr n)
      have "i \<in> set [0..<length uE]"
        using assms(1) by simp
      moreover have "\<exists>e. cache_edge (order_facets_around_edge col V F) F P uE uE2E i c = Inl e"
        for c
        using cache_edge_malformed [OF assms(1-6)] neither assms(7) by simp
      ultimately obtain e where
        "build_edge_cache (order_facets_around_edge col V F) F P uE uE2E n = Inl e"
        unfolding build_edge_cache_def using foldM_Inl by meson
      then show ?thesis
        by (simp add: extract_cells_single_component_def Inr)
    qed
    then obtain e where e: "extract_cells_single_component col V F P uE uE2E EMAP = Some (Inl e)" ..
    have patch: "\<exists>e. extract_cells col V F P E uE uE2E EMAP = Some (Inl e)"
      using e by (cases "num_patches_of P") (simp_all add: extract_cells_def)
    then have "\<exists>e. extract_cells_VF col V F = Some (Inl e)"
      if "unique_edge_map col F = (E, uE, EMAP, uE2E)"
        and "extract_manifold_patches col F EMAP uE2E = P"
      using that by (auto simp: extract_cells_VF_def)
    then show ?thesis
      using test single patch by blast
  qed
  show ?thesis
    using good bad by blast
qed

theorem malformed_face_on_non_manifold_edge_aborts_witness:
  "is_consistent fan_F (6 mod length fan_F) 5 6 = Inl Invalid_face \<and>
   (\<exists>e. extract_cells_single_component fan_col fan_V fan_F fan_P broken_uE fan_uE2E fan_EMAP =
      Some (Inl e)) \<and>
   (\<exists>e. extract_cells fan_col fan_V fan_F fan_P fan_E broken_uE fan_uE2E fan_EMAP = Some (Inl e)) \<and>
   (\<exists>b. is_consistent fan_F (6 mod length fan_F) 0 1 = Inr b)"
proof -
  have h: "0 < length broken_uE" "broken_uE ! 0 = (5, 6)" "0 < length fan_uE2E"
    "2 < length (fan_uE2E ! 0)" "6 \<in> set (fan_uE2E ! 0)" "fan_F \<noteq> []"
    by (simp_all add: broken_uE_def fan_uE2E_def fan_F_def)
  have g: "0 < length fan_uE" "fan_uE ! 0 = (0, 1)"
    by (simp_all add: fan_uE_def)
  have n: "\<not> has_directed_edge (fan_F ! (6 mod length fan_F)) 5 6 \<and>
           \<not> has_directed_edge (fan_F ! (6 mod length fan_F)) 6 5"
    by (simp add: fan_F_def has_directed_edge_def)
  have y: "has_directed_edge (fan_F ! (6 mod length fan_F)) 0 1"
    by (simp add: fan_F_def has_directed_edge_def)
  from malformed_face_on_non_manifold_edge_aborts [OF h refl, of fan_col fan_V fan_P fan_EMAP fan_E]
    malformed_face_on_non_manifold_edge_aborts [OF g h(3-6) refl, of fan_col fan_V fan_P fan_EMAP fan_E]
    n y
  show ?thesis
    by blast
qed

theorem malformed_face_on_manifold_edge_counterexample:
  "2 < length lone_uE \<and> lone_uE ! 2 = (5, 6) \<and> 0 \<in> set (lone_uE2E ! 2) \<and>
   \<not> has_directed_edge (lone_F ! (0 mod length lone_F)) 5 6 \<and>
   \<not> has_directed_edge (lone_F ! (0 mod length lone_F)) 6 5 \<and>
   extract_cells_single_component lone_col lone_V lone_F [0] lone_uE lone_uE2E lone_EMAP =
     Some (Inr ([(0, 1)], 2)) \<and>
   extract_cells lone_col lone_V lone_F [0] lone_E lone_uE lone_uE2E lone_EMAP =
     Some (Inr ([(0, 1)], 2))"
  using lone_run_single lone_run
  by (simp add: lone_uE_def lone_uE2E_def lone_F_def has_directed_edge_def)

subsection \<open>The direct parent of an outer cell\<close>

lemma find_embedded_found:
  assumes "find_embedded ac aci ci k js = Inr (cmp, cell)"
  shows "(cmp = INVALID_size_t \<and> cell = INVALID_size_t \<and>
          (\<forall>j \<in> set js. length (ac ! (aci ! j)) \<noteq> k - 1)) \<or>
         (\<exists>pre j post. js = pre @ j # post \<and>
            (\<forall>j' \<in> set pre. length (ac ! (aci ! j')) \<noteq> k - 1) \<and>
            length (ac ! (aci ! j)) = k - 1 \<and> j < length aci \<and> j < length ci \<and>
            cmp = aci ! j \<and> cell = ci ! j)"
  using assms
proof (induction js)
  case Nil
  then show ?case by simp
next
  case (Cons j js)
  from Cons.prems obtain c acj where c: "elem aci j = Inr c" and acj: "elem ac c = Inr acj"
    and r: "(if length acj = k - 1 then err_bind (elem ci j) (\<lambda>cell. Inr (c, cell))
             else find_embedded ac aci ci k js) = Inr (cmp, cell)"
    by (auto simp: err_bind_eq_Inr)
  have cj: "c = aci ! j" "j < length aci" and aj: "acj = ac ! (aci ! j)"
    using c acj by (auto simp: elem_eq_Inr)
  show ?case
  proof (cases "length acj = k - 1")
    case True
    with r have "j < length ci" "cell = ci ! j" "cmp = c"
      by (auto simp: err_bind_eq_Inr elem_eq_Inr)
    then have "j # js = [] @ j # js \<and>
               (\<forall>j' \<in> set []. length (ac ! (aci ! j')) \<noteq> k - 1) \<and>
               length (ac ! (aci ! j)) = k - 1 \<and> j < length aci \<and> j < length ci \<and>
               cmp = aci ! j \<and> cell = ci ! j"
      using True cj aj by simp
    then show ?thesis by blast
  next
    case False
    with r have "find_embedded ac aci ci k js = Inr (cmp, cell)" by simp
    from Cons.IH [OF this] show ?thesis
    proof
      assume "cmp = INVALID_size_t \<and> cell = INVALID_size_t \<and>
              (\<forall>j \<in> set js. length (ac ! (aci ! j)) \<noteq> k - 1)"
      then show ?thesis using False aj by simp
    next
      assume "\<exists>pre j post. js = pre @ j # post \<and>
                (\<forall>j' \<in> set pre. length (ac ! (aci ! j')) \<noteq> k - 1) \<and>
                length (ac ! (aci ! j)) = k - 1 \<and> j < length aci \<and> j < length ci \<and>
                cmp = aci ! j \<and> cell = ci ! j"
      then obtain pre j0 post where p: "js = pre @ j0 # post"
        "\<forall>j' \<in> set pre. length (ac ! (aci ! j')) \<noteq> k - 1"
        "length (ac ! (aci ! j0)) = k - 1" "j0 < length aci" "j0 < length ci"
        "cmp = aci ! j0" "cell = ci ! j0"
        by blast
      have "j # js = (j # pre) @ j0 # post \<and>
            (\<forall>j' \<in> set (j # pre). length (ac ! (aci ! j')) \<noteq> k - 1)"
        using p(1,2) False aj by simp
      then show ?thesis using p(3-7) by blast
    qed
  qed
qed

lemma upt_split_first:
  assumes "[0..<k] = pre @ j # post"
  shows "j < k \<and> set pre = {0..<j}"
proof -
  have "length pre < k"
    using arg_cong [OF assms, of length] by simp
  have "[0..<k] ! length pre = j"
    using assms by (simp add: nth_append)
  then have j: "j = length pre"
    using \<open>length pre < k\<close> by simp
  have "take (length pre) [0..<k] = pre"
    using assms by simp
  then have "pre = [0..<j]"
    using j \<open>length pre < k\<close> by (simp add: take_upt)
  from arg_cong [OF this, of set] have "set pre = {0..<j}"
    by (simp only: set_upt)
  then show ?thesis
    using j \<open>length pre < k\<close> by simp
qed

text \<open>What one round of the loop over the components does, when it succeeds.\<close>

lemma embed_component_effect:
  assumes "embed_component oc ac acells inf_cell i emb = Inr emb'"
  shows "i < length oc \<and> i < length ac \<and> oc ! i < length emb \<and>
         (ac ! i = [] \<longrightarrow> emb' = emb[oc ! i := inf_cell]) \<and>
         (ac ! i \<noteq> [] \<longrightarrow>
            (\<exists>j<length (ac ! i).
               length (ac ! (ac ! i ! j)) = length (ac ! i) - 1 \<and>
               (\<forall>j'<j. length (ac ! (ac ! i ! j')) \<noteq> length (ac ! i) - 1) \<and>
               emb' = emb[oc ! i := acells ! (oc ! i) ! j]))"
proof -
  from assms obtain ci where i: "i < length oc" "i < length ac"
    and ci: "elem acells (oc ! i) = Inr ci"
    and r: "(let k = length (ac ! i) in
             if k \<noteq> length ci then Inl Ambient_size_mismatch
             else if k > 0 then
               err_bind (find_embedded ac (ac ! i) ci k [0..<k]) (\<lambda>(embedded_comp, embedded_cell).
               if embedded_comp = INVALID_size_t then Inl No_embedded_component
               else if embedded_cell = INVALID_size_t then Inl No_embedded_cell
               else if oc ! i < length emb then Inr (emb[oc ! i := embedded_cell])
               else Inl Index_out_of_range)
             else if oc ! i < length emb then Inr (emb[oc ! i := inf_cell])
             else Inl Index_out_of_range) = Inr emb'"
    by (auto simp: embed_component_def err_bind_eq_Inr elem_eq_Inr)
  have cells: "ci = acells ! (oc ! i)"
    using ci by (simp add: elem_eq_Inr)
  define k where "k = length (ac ! i)"
  show ?thesis
  proof (cases "ac ! i = []")
    case True
    then show ?thesis
      using r i by (auto simp: Let_def split: if_splits)
  next
    case False
    then have kpos: "0 < k" by (simp add: k_def)
    from r kpos obtain cmp cell where
      f: "find_embedded ac (ac ! i) ci k [0..<k] = Inr (cmp, cell)"
      and ok: "cmp \<noteq> INVALID_size_t" "cell \<noteq> INVALID_size_t" "oc ! i < length emb"
        "emb' = emb[oc ! i := cell]"
      by (auto simp: Let_def k_def err_bind_eq_Inr split: if_splits)
    from find_embedded_found [OF f] ok(1) obtain pre j post where
      p: "[0..<k] = pre @ j # post"
      "\<forall>j' \<in> set pre. length (ac ! (ac ! i ! j')) \<noteq> k - 1"
      "length (ac ! (ac ! i ! j)) = k - 1" "cell = ci ! j"
      by blast
    from upt_split_first [OF p(1)] have j: "j < k" "set pre = {0..<j}"
      by simp_all
    have "\<forall>j'<j. length (ac ! (ac ! i ! j')) \<noteq> k - 1"
      using p(2) j(2) by simp
    then have "\<exists>j<length (ac ! i).
                 length (ac ! (ac ! i ! j)) = length (ac ! i) - 1 \<and>
                 (\<forall>j'<j. length (ac ! (ac ! i ! j')) \<noteq> length (ac ! i) - 1) \<and>
                 emb' = emb[oc ! i := acells ! (oc ! i) ! j]"
      using j(1) p(3,4) ok(4) cells unfolding k_def by blast
    then show ?thesis
      using i ok(3) False by simp
  qed
qed

lemma embed_component_no_candidate:
  assumes "ac ! i \<noteq> []"
    and "\<forall>j<length (ac ! i). length (ac ! (ac ! i ! j)) \<noteq> length (ac ! i) - 1"
  shows "\<exists>e. embed_component oc ac acells inf_cell i emb = Inl e"
proof (cases "embed_component oc ac acells inf_cell i emb")
  case (Inl e)
  then show ?thesis by simp
next
  case (Inr emb')
  from embed_component_effect [OF Inr] assms show ?thesis by blast
qed

lemma embed_loop_keeps:
  assumes "foldM (embed_component oc ac acells inf_cell) js emb = Inr emb'"
    and "\<forall>j \<in> set js. oc ! j \<noteq> c"
  shows "emb' ! c = emb ! c"
proof (rule foldM_invariant [OF assms(1), where I = "\<lambda>t. t ! c = emb ! c"])
  show "emb ! c = emb ! c" ..
next
  fix j t t'
  assume j: "j \<in> set js" and t: "t ! c = emb ! c"
    and s: "embed_component oc ac acells inf_cell j t = Inr t'"
  from embed_component_effect [OF s] obtain v where "t' = t[oc ! j := v]"
    by (cases "ac ! j = []") auto
  then show "t' ! c = emb ! c"
    using t assms(2) j by simp
qed

text \<open>
  Claim C3, as amended. For a component \<open>i\<close> with \<open>k > 0\<close> ambient relationships: when
  the loop returns, and no other component has the same outer cell, the parent recorded
  for the outer cell of \<open>i\<close> is the ambient cell at the first position \<open>j\<close> whose ambient
  component has exactly \<open>k - 1\<close> ambient relationships (the search stops at the first
  one, whether or not a later position qualifies as well); and when no position
  qualifies, the loop ends with a failure.
\<close>

theorem direct_parent_is_first_candidate:
  assumes "i < num_components" and "ambient_comps ! i \<noteq> []"
  shows "(embedded_cells_of num_components outer_cells ambient_comps ambient_cells num_raw_cells =
            Inr embedded_cells \<and>
          (\<forall>i'<num_components. i' \<noteq> i \<longrightarrow> outer_cells ! i' \<noteq> outer_cells ! i) \<longrightarrow>
            (\<exists>j<length (ambient_comps ! i).
               length (ambient_comps ! (ambient_comps ! i ! j)) = length (ambient_comps ! i) - 1 \<and>
               (\<forall>j'<j. length (ambient_comps ! (ambient_comps ! i ! j')) \<noteq>
                          length (ambient_comps ! i) - 1) \<and>
               embedded_cells ! (outer_cells ! i) = ambient_cells ! (outer_cells ! i) ! j)) \<and>
         ((\<forall>j<length (ambient_comps ! i).
             length (ambient_comps ! (ambient_comps ! i ! j)) \<noteq> length (ambient_comps ! i) - 1) \<longrightarrow>
            (\<exists>e. embedded_cells_of num_components outer_cells ambient_comps ambient_cells
                    num_raw_cells = Inl e))"
proof (intro conjI impI)
  assume a: "embedded_cells_of num_components outer_cells ambient_comps ambient_cells num_raw_cells =
               Inr embedded_cells \<and>
             (\<forall>i'<num_components. i' \<noteq> i \<longrightarrow> outer_cells ! i' \<noteq> outer_cells ! i)"
  let ?f = "embed_component outer_cells ambient_comps ambient_cells num_raw_cells"
  have "[0..<num_components] = [0..<i] @ [i..<num_components]"
    using assms(1) upt_add_eq_append [of 0 i "num_components - i"] by simp
  also have "[i..<num_components] = i # [Suc i..<num_components]"
    using assms(1) by (simp add: upt_conv_Cons)
  finally have split: "[0..<num_components] = [0..<i] @ i # [Suc i..<num_components]" .
  from a have "foldM ?f ([0..<i] @ i # [Suc i..<num_components])
                 (replicate num_raw_cells INVALID_size_t) = Inr embedded_cells"
    unfolding embedded_cells_of_def split [symmetric] by simp
  then obtain emb1 emb2 where
    s1: "foldM ?f [0..<i] (replicate num_raw_cells INVALID_size_t) = Inr emb1"
    and s2: "?f i emb1 = Inr emb2"
    and s3: "foldM ?f [Suc i..<num_components] emb2 = Inr embedded_cells"
    by (auto simp: foldM_append split: sum.splits)
  from embed_component_effect [OF s2] assms(2) obtain j where
    j: "j < length (ambient_comps ! i)"
    "length (ambient_comps ! (ambient_comps ! i ! j)) = length (ambient_comps ! i) - 1"
    "\<forall>j'<j. length (ambient_comps ! (ambient_comps ! i ! j')) \<noteq> length (ambient_comps ! i) - 1"
    "emb2 = emb1[outer_cells ! i := ambient_cells ! (outer_cells ! i) ! j]"
    and r: "outer_cells ! i < length emb1"
    by blast
  have "\<forall>j \<in> set [Suc i..<num_components]. outer_cells ! j \<noteq> outer_cells ! i"
    using a by simp
  from embed_loop_keeps [OF s3 this]
  have "embedded_cells ! (outer_cells ! i) = ambient_cells ! (outer_cells ! i) ! j"
    using j(4) r by simp
  then show "\<exists>j<length (ambient_comps ! i).
               length (ambient_comps ! (ambient_comps ! i ! j)) = length (ambient_comps ! i) - 1 \<and>
               (\<forall>j'<j. length (ambient_comps ! (ambient_comps ! i ! j')) \<noteq>
                          length (ambient_comps ! i) - 1) \<and>
               embedded_cells ! (outer_cells ! i) = ambient_cells ! (outer_cells ! i) ! j"
    using j(1-3) by blast
next
  assume n: "\<forall>j<length (ambient_comps ! i).
               length (ambient_comps ! (ambient_comps ! i ! j)) \<noteq> length (ambient_comps ! i) - 1"
  have "i \<in> set [0..<num_components]"
    using assms(1) by simp
  moreover have "\<exists>e. embed_component outer_cells ambient_comps ambient_cells num_raw_cells i emb =
                   Inl e" for emb
    by (rule embed_component_no_candidate [OF assms(2) n])
  ultimately show "\<exists>e. embedded_cells_of num_components outer_cells ambient_comps ambient_cells
                          num_raw_cells = Inl e"
    unfolding embedded_cells_of_def by (rule foldM_Inl)
qed

theorem direct_parent_is_first_candidate_witness:
  "embedded_cells_of 3 chain_outer_cells chain_ambient_comps chain_ambient_cells 6 =
     Inr chain_embedded_cells \<and>
   (\<exists>j<length (chain_ambient_comps ! 2).
      length (chain_ambient_comps ! (chain_ambient_comps ! 2 ! j)) =
        length (chain_ambient_comps ! 2) - 1 \<and>
      (\<forall>j'<j. length (chain_ambient_comps ! (chain_ambient_comps ! 2 ! j')) \<noteq>
                 length (chain_ambient_comps ! 2) - 1) \<and>
      chain_embedded_cells ! (chain_outer_cells ! 2) =
        chain_ambient_cells ! (chain_outer_cells ! 2) ! j) \<and>
   (\<exists>e. embedded_cells_of 2 cyclic_outer_cells cyclic_ambient_comps cyclic_ambient_cells 4 =
      Inl e)"
proof -
  have run: "embedded_cells_of 3 chain_outer_cells chain_ambient_comps chain_ambient_cells 6 =
               Inr chain_embedded_cells"
    by (simp add: embedded_cells_of_def embed_component_def elem_def upt_rec Let_def
          replicate_numeral_unfold list_update_Cons_numeral INVALID_size_t_def
          chain_outer_cells_def chain_ambient_comps_def chain_ambient_cells_def
          chain_embedded_cells_def)
  have h: "(2::nat) < 3" "chain_ambient_comps ! 2 \<noteq> []"
    by (simp_all add: chain_ambient_comps_def)
  have d: "\<forall>i'<3. i' \<noteq> 2 \<longrightarrow> chain_outer_cells ! i' \<noteq> chain_outer_cells ! 2"
  proof (intro allI impI)
    fix i' :: nat
    assume "i' < 3" and "i' \<noteq> 2"
    then have "i' = 0 \<or> i' = 1" by linarith
    then show "chain_outer_cells ! i' \<noteq> chain_outer_cells ! 2"
      by (auto simp: chain_outer_cells_def)
  qed
  have g: "(0::nat) < 2" "cyclic_ambient_comps ! 0 \<noteq> []"
    by (simp_all add: cyclic_ambient_comps_def)
  have none: "\<forall>j<length (cyclic_ambient_comps ! 0).
                length (cyclic_ambient_comps ! (cyclic_ambient_comps ! 0 ! j)) \<noteq>
                length (cyclic_ambient_comps ! 0) - 1"
    by (simp add: cyclic_ambient_comps_def)
  note t1 = direct_parent_is_first_candidate [OF h, where num_raw_cells = 6
      and outer_cells = chain_outer_cells and ambient_cells = chain_ambient_cells
      and embedded_cells = chain_embedded_cells]
  note t2 = direct_parent_is_first_candidate [OF g, where num_raw_cells = 4
      and outer_cells = cyclic_outer_cells and ambient_cells = cyclic_ambient_cells]
  have a: "\<exists>j<length (chain_ambient_comps ! 2).
      length (chain_ambient_comps ! (chain_ambient_comps ! 2 ! j)) =
        length (chain_ambient_comps ! 2) - 1 \<and>
      (\<forall>j'<j. length (chain_ambient_comps ! (chain_ambient_comps ! 2 ! j')) \<noteq>
                 length (chain_ambient_comps ! 2) - 1) \<and>
      chain_embedded_cells ! (chain_outer_cells ! 2) =
        chain_ambient_cells ! (chain_outer_cells ! 2) ! j"
    using t1 run d by blast
  have b: "\<exists>e. embedded_cells_of 2 cyclic_outer_cells cyclic_ambient_comps cyclic_ambient_cells 4 =
             Inl e"
    using t2 none by blast
  show ?thesis
    using run a b by (intro conjI)
qed

theorem first_of_two_candidates_taken_counterexample:
  "nesting_of rival_col rival_V rival_F rival_P rival_uE2E rival_EMAP
     [(0, 1), (2, 3), (4, 5), (6, 7)] 8 [0, 1, 2, 3] 4 [[0], [1], [2], [3]] [0, 1, 2, 3]
     [0, 2, 4, 6] = Inr rival_nesting \<and>
   nest_ambient_comps rival_nesting ! 3 = [1, 2] \<and>
   length (nest_ambient_comps rival_nesting ! 1) = length (nest_ambient_comps rival_nesting ! 3) - 1 \<and>
   length (nest_ambient_comps rival_nesting ! 2) = length (nest_ambient_comps rival_nesting ! 3) - 1 \<and>
   embedded_cells_of 4 [0, 2, 4, 6] (nest_ambient_comps rival_nesting)
     (nest_ambient_cells rival_nesting) 8 =
     Inr [8, INVALID_size_t, 1, INVALID_size_t, 1, INVALID_size_t, 3, INVALID_size_t] \<and>
   extract_cells rival_col rival_V rival_F rival_P rival_E rival_uE rival_uE2E rival_EMAP =
     Some (Inr ([(0, 1), (1, 2), (1, 3), (2, 4)], 5))"
  using rival_nesting_of rival_embedded rival_run by (simp add: rival_nesting_def)

theorem every_side_labeled_with_a_counted_cell_witness:
  "length ([(0, 1), (1, 2), (2, 0)] :: cells) = 3 \<and>
   (\<exists>v. cell_at [(0, 1), (1, 2), (2, 0)] 2 1 = Inr v \<and> v \<noteq> INVALID \<and> v < 3) \<and>
   (\<exists>p<3. \<exists>side<2. cell_at [(0, 1), (1, 2), (2, 0)] p side = Inr 2)"
proof -
  have small: "2 * 3 \<le> INVALID"
    by (simp add: INVALID_def)
  note t = every_side_labeled_with_a_counted_cell [OF fan_run_single fan_num_patches small]
  have a: "\<exists>v. cell_at [(0, 1), (1, 2), (2, 0)] 2 1 = Inr v \<and> v \<noteq> INVALID \<and> v < 3"
    using t [THEN conjunct2, THEN conjunct1, rule_format, of 2 1] by simp
  have b: "\<exists>p<3. \<exists>side<2. cell_at [(0, 1), (1, 2), (2, 0)] p side = Inr 2"
    using t [THEN conjunct2, THEN conjunct2, rule_format, of 2] by simp
  show ?thesis
    using t [THEN conjunct1] a b by (intro conjI)
qed

theorem faces_of_a_patch_share_cells_witness:
  "extract_cells_VF pair_col pair_V pair_F = Some (Inr ([(0, 1), (0, 1)], 2)) \<and>
   ([0, 0] :: nat list) ! 0 = [0, 0] ! 1 \<and>
   ([(0, 1), (0, 1)] :: cells) ! 0 = [(0, 1), (0, 1)] ! 1 \<and>
   (\<exists>per_patch_cells.
      extract_cells pair_col pair_V pair_F [0, 0] pair_E pair_uE pair_uE2E pair_EMAP =
        Some (Inr (per_patch_cells, 2)) \<and>
      length ([(0, 1), (0, 1)] :: cells) = length pair_F \<and>
      ([(0, 1), (0, 1)] :: cells) ! 1 = per_patch_cells ! ([0, 0] ! 1))"
proof -
  from faces_of_a_patch_share_cells [OF pair_run_VF pair_collaborators] obtain per_patch_cells
    where r: "extract_cells pair_col pair_V pair_F [0, 0] pair_E pair_uE pair_uE2E pair_EMAP =
                Some (Inr (per_patch_cells, 2))"
      and l: "length ([(0, 1), (0, 1)] :: cells) = length pair_F"
      and c: "\<forall>i<length pair_F. i < length ([0, 0] :: nat list) \<and>
                [0, 0] ! i < length per_patch_cells \<and>
                ([(0, 1), (0, 1)] :: cells) ! i = per_patch_cells ! ([0, 0] ! i)"
    by blast
  have "(1::nat) < length pair_F"
    by (simp add: pair_F_def)
  with c have "([(0, 1), (0, 1)] :: cells) ! 1 = per_patch_cells ! ([0, 0] ! 1)"
    by blast
  with r l have "\<exists>per_patch_cells.
      extract_cells pair_col pair_V pair_F [0, 0] pair_E pair_uE pair_uE2E pair_EMAP =
        Some (Inr (per_patch_cells, 2)) \<and>
      length ([(0, 1), (0, 1)] :: cells) = length pair_F \<and>
      ([(0, 1), (0, 1)] :: cells) ! 1 = per_patch_cells ! ([0, 0] ! 1)"
    by blast
  then show ?thesis
    using pair_run_VF by simp
qed

theorem returned_count_is_positive_witness:
  "extract_cells fan_col fan_V fan_F fan_P fan_E fan_uE fan_uE2E fan_EMAP =
     Some (Inr ([(0, 1), (1, 2), (2, 0)], 3)) \<and> (1::nat) \<le> 3"
  using returned_count_is_positive [OF fan_run] fan_run by simp

subsection \<open>The relabeling gives the ids in first-seen order\<close>

lemma final_id_append: "r \<in> set seen \<Longrightarrow> final_id (seen @ xs) r = final_id seen r"
  unfolding final_id_def by (induction seen) auto

lemma final_id_new: "r \<notin> set seen \<Longrightarrow> final_id (seen @ [r]) r = length seen"
  unfolding final_id_def by (induction seen) auto

lemma final_id_less: "r \<in> set seen \<Longrightarrow> final_id seen r < length seen"
  unfolding final_id_def by (induction seen) auto

lemma final_id_nth: "distinct seen \<Longrightarrow> i < length seen \<Longrightarrow> final_id seen (seen ! i) = i"
proof (induction seen arbitrary: i)
  case Nil
  then show ?case by simp
next
  case (Cons x seen)
  show ?case
  proof (cases i)
    case 0
    then show ?thesis by (simp add: final_id_def)
  next
    case (Suc k)
    then have "seen ! k \<in> set seen" using Cons.prems by simp
    then have "seen ! k \<noteq> x" using Cons.prems by auto
    then show ?thesis
      using Cons.IH [of k] Cons.prems Suc by (simp add: final_id_def)
  qed
qed

lemma final_id_image:
  assumes "distinct seen"
  shows "final_id seen ` set seen = {0..<length seen}"
proof
  show "final_id seen ` set seen \<subseteq> {0..<length seen}"
    using final_id_less by auto
  show "{0..<length seen} \<subseteq> final_id seen ` set seen"
  proof
    fix i
    assume "i \<in> {0..<length seen}"
    then have i: "i < length seen" by simp
    then have "final_id seen (seen ! i) = i"
      by (rule final_id_nth [OF assms])
    then show "i \<in> final_id seen ` set seen"
      using i by (metis imageI nth_mem)
  qed
qed

lemma first_seen_append: "first_seen seen (xs @ ys) = first_seen (first_seen seen xs) ys"
  by (induction xs arbitrary: seen) simp_all

lemma first_seen_extends: "\<exists>zs. first_seen seen rs = seen @ zs"
proof (induction rs arbitrary: seen)
  case Nil
  then show ?case by simp
next
  case (Cons r rs)
  from Cons [of "if r \<in> set seen then seen else seen @ [r]"]
  obtain zs where "first_seen (if r \<in> set seen then seen else seen @ [r]) rs =
                     (if r \<in> set seen then seen else seen @ [r]) @ zs" ..
  then show ?case by (cases "r \<in> set seen") auto
qed

lemma first_seen_set: "set (first_seen seen rs) = set seen \<union> set rs"
  by (induction rs arbitrary: seen) auto

lemma first_seen_distinct: "distinct seen \<Longrightarrow> distinct (first_seen seen rs)"
  by (induction rs arbitrary: seen) auto

lemma final_id_first_seen:
  assumes "r \<in> set seen"
  shows "final_id (first_seen seen rs) r = final_id seen r"
proof -
  from first_seen_extends [of seen rs] obtain zs where "first_seen seen rs = seen @ zs" ..
  then show ?thesis
    using final_id_append [OF assms] by simp
qed

text \<open>One raw id: its final id is its position in the list of the ids seen, extended by
  this id when it is new.\<close>

lemma relabel_cell_step:
  assumes "relabel_cell old (m, c) = Inr (new, m', c')" and "relabel_inv seen (m, c)"
  shows "relabel_inv (first_seen seen [old]) (m', c') \<and>
         new = final_id (first_seen seen [old]) old \<and> length m' = length m"
proof -
  from assms(2) have d: "distinct seen" and c: "c = length seen"
    and sub: "set seen \<subseteq> {0..<length m}" and small: "length m < INVALID_size_t"
    and tab: "\<forall>r<length m. m ! r = (if r \<in> set seen then final_id seen r else INVALID_size_t)"
    by (simp_all add: relabel_inv_def)
  from assms(1) have old: "old < length m"
    by (auto simp: relabel_cell_def err_bind_eq_Inr elem_eq_Inr)
  have bound: "length seen \<le> length m"
  proof -
    have "card (set seen) \<le> card {0..<length m}"
      by (rule card_mono [OF _ sub]) simp
    then show ?thesis
      using d by (simp add: distinct_card)
  qed
  show ?thesis
  proof (cases "old \<in> set seen")
    case True
    then have "m ! old = final_id seen old"
      using tab old by simp
    moreover have "final_id seen old < INVALID_size_t"
      using final_id_less [OF True] bound small by linarith
    ultimately have "new = final_id seen old" "m' = m" "c' = c"
      using assms(1) old by (auto simp: relabel_cell_def elem_in_range)
    then show ?thesis
      using assms(2) True by simp
  next
    case False
    then have "m ! old = INVALID_size_t"
      using tab old by simp
    then have r: "new = c" "m' = m[old := c]" "c' = c + 1"
      using assms(1) old by (auto simp: relabel_cell_def elem_in_range)
    have tab': "\<forall>r<length m'. m' ! r =
                  (if r \<in> set (seen @ [old]) then final_id (seen @ [old]) r else INVALID_size_t)"
    proof (intro allI impI)
      fix r
      assume "r < length m'"
      then have rl: "r < length m" using r(2) by simp
      show "m' ! r = (if r \<in> set (seen @ [old]) then final_id (seen @ [old]) r else INVALID_size_t)"
      proof (cases "r = old")
        case True
        then show ?thesis
          using r(2) rl c final_id_new [OF False] by simp
      next
        case ne: False
        then have "m' ! r = m ! r" using r(2) by simp
        then show ?thesis
          using tab rl ne final_id_append [of r seen "[old]"] by auto
      qed
    qed
    have "relabel_inv (seen @ [old]) (m', c')"
      using d False c sub small old r tab' by (simp add: relabel_inv_def)
    then show ?thesis
      using False r c final_id_new [OF False] by simp
  qed
qed

lemma cell_entries_append: "cell_entries (xs @ ys) = cell_entries xs @ cell_entries ys"
  by (simp add: cell_entries_def)

lemma cell_entries_map:
  "cell_entries (map (\<lambda>(a, b). (f a, f b)) cells) = map f (cell_entries cells)"
  by (induction cells) (auto simp: cell_entries_def)

lemma cell_entries_row: "(a, b) \<in> set cells \<Longrightarrow> a \<in> set (cell_entries cells) \<and> b \<in> set (cell_entries cells)"
  by (induction cells) (auto simp: cell_entries_def)

text \<open>One patch: both of its raw ids, side 0 first.\<close>

lemma relabel_patch_step:
  assumes "relabel_patch i (raw, m, c) = Inr (raw', m', c')" and "relabel_inv seen (m, c)"
    and "raw ! i = (a, b)"
  shows "i < length raw \<and> relabel_inv (first_seen seen [a, b]) (m', c') \<and>
         raw' = raw[i := (final_id (first_seen seen [a, b]) a, final_id (first_seen seen [a, b]) b)]"
proof -
  from assms(1) obtain oa ob na m1 c1 nb raw1 where
    ra: "cell_at raw i 0 = Inr oa" and rb: "cell_at raw i 1 = Inr ob"
    and la: "relabel_cell oa (m, c) = Inr (na, m1, c1)"
    and lb: "relabel_cell ob (m1, c1) = Inr (nb, m', c')"
    and wa: "cell_set raw i 0 na = Inr raw1" and wb: "cell_set raw1 i 1 nb = Inr raw'"
    by (auto simp: relabel_patch_def err_bind_eq_Inr)
  from ra rb assms(3) have i: "i < length raw" and o: "oa = a" "ob = b"
    by (auto simp: cell_at_def split: if_splits)
  from relabel_cell_step [OF la assms(2)]
  have inv1: "relabel_inv (first_seen seen [a]) (m1, c1)"
    and na: "na = final_id (first_seen seen [a]) a"
    by (simp_all add: o)
  from relabel_cell_step [OF lb inv1]
  have inv2: "relabel_inv (first_seen (first_seen seen [a]) [b]) (m', c')"
    and nb: "nb = final_id (first_seen (first_seen seen [a]) [b]) b"
    by (simp_all add: o)
  have two: "first_seen (first_seen seen [a]) [b] = first_seen seen [a, b]"
    by simp
  have "a \<in> set (first_seen seen [a])"
    by (simp add: first_seen_set)
  from final_id_first_seen [OF this, of "[b]"]
  have na': "na = final_id (first_seen seen [a, b]) a"
    using na two by simp
  have "raw1 = raw[i := (na, b)]"
    using wa assms(3) by (auto simp: cell_set_def split: if_splits)
  then have "raw' = raw[i := (na, nb)]"
    using wb i by (auto simp: cell_set_def split: if_splits)
  then show ?thesis
    using i inv2 na' nb two by simp
qed

text \<open>The loop over the first \<open>n\<close> patches.\<close>

lemma relabel_loop:
  assumes "foldM relabel_patch [0..<n] (raw0, m0, c0) = Inr (raw', m', c')"
    and "relabel_inv seen0 (m0, c0)" and "n \<le> length raw0"
  shows "relabel_inv (first_seen seen0 (cell_entries (take n raw0))) (m', c') \<and>
         raw' = map (\<lambda>(a, b). (final_id (first_seen seen0 (cell_entries (take n raw0))) a,
                               final_id (first_seen seen0 (cell_entries (take n raw0))) b))
                  (take n raw0) @ drop n raw0"
  using assms(1,3)
proof (induction n arbitrary: raw' m' c')
  case 0
  then show ?case using assms(2) by (simp add: cell_entries_def)
next
  case (Suc n)
  let ?ord = "first_seen seen0 (cell_entries (take n raw0))"
  from Suc.prems(1) obtain raw1 m1 c1 where
    pre: "foldM relabel_patch [0..<n] (raw0, m0, c0) = Inr (raw1, m1, c1)"
    and step: "relabel_patch n (raw1, m1, c1) = Inr (raw', m', c')"
    by (auto simp: foldM_append split: sum.splits)
  have n: "n < length raw0" using Suc.prems(2) by simp
  from Suc.IH [OF pre] n have inv1: "relabel_inv ?ord (m1, c1)"
    and raw1: "raw1 = map (\<lambda>(a, b). (final_id ?ord a, final_id ?ord b)) (take n raw0) @ drop n raw0"
    by simp_all
  obtain a b where ab: "raw0 ! n = (a, b)" by (cases "raw0 ! n")
  have dr: "drop n raw0 = (a, b) # drop (Suc n) raw0"
    using n ab by (simp add: Cons_nth_drop_Suc [symmetric])
  have tk: "take (Suc n) raw0 = take n raw0 @ [(a, b)]"
    using n ab by (simp add: take_Suc_conv_app_nth)
  have len: "length (map (\<lambda>(a, b). (final_id ?ord a, final_id ?ord b)) (take n raw0)) = n"
    using n by simp
  have row: "raw1 ! n = (a, b)"
    unfolding raw1 dr using len by (simp add: nth_append)
  let ?ord' = "first_seen ?ord [a, b]"
  have ord': "?ord' = first_seen seen0 (cell_entries (take (Suc n) raw0))"
    by (simp add: tk cell_entries_append first_seen_append cell_entries_def)
  from relabel_patch_step [OF step inv1 row]
  have inv2: "relabel_inv ?ord' (m', c')"
    and raw': "raw' = raw1[n := (final_id ?ord' a, final_id ?ord' b)]"
    by simp_all
  have old: "map (\<lambda>(a, b). (final_id ?ord a, final_id ?ord b)) (take n raw0) =
             map (\<lambda>(a, b). (final_id ?ord' a, final_id ?ord' b)) (take n raw0)"
  proof (rule map_cong [OF refl])
    fix r
    assume r: "r \<in> set (take n raw0)"
    obtain x y where xy: "r = (x, y)" by (cases r)
    from cell_entries_row [of x y "take n raw0"] r xy
    have "x \<in> set ?ord" "y \<in> set ?ord"
      by (simp_all add: first_seen_set)
    then show "(case r of (a, b) \<Rightarrow> (final_id ?ord a, final_id ?ord b)) =
               (case r of (a, b) \<Rightarrow> (final_id ?ord' a, final_id ?ord' b))"
      using final_id_first_seen [of x ?ord "[a, b]"] final_id_first_seen [of y ?ord "[a, b]"]
      by (simp add: xy)
  qed
  have "raw' = map (\<lambda>(a, b). (final_id ?ord' a, final_id ?ord' b)) (take n raw0) @
               (final_id ?ord' a, final_id ?ord' b) # drop (Suc n) raw0"
    unfolding raw' raw1 dr old
    using n by (simp add: list_update_append)
  then have "raw' = map (\<lambda>(a, b). (final_id ?ord' a, final_id ?ord' b)) (take (Suc n) raw0) @
                    drop (Suc n) raw0"
    by (simp add: tk)
  then show ?case
    using inv2 unfolding ord' by simp
qed

lemma relabel_initial:
  assumes "num_raw_cells + 1 < INVALID_size_t"
  shows "relabel_inv [num_raw_cells]
           ((replicate (num_raw_cells + 1) INVALID_size_t)[num_raw_cells := 0], 1)"
proof -
  define m where "m = (replicate (num_raw_cells + 1) INVALID_size_t)[num_raw_cells := 0]"
  have len: "length m = num_raw_cells + 1"
    unfolding m_def by (simp only: length_list_update length_replicate)
  have nth: "m ! r = (if r = num_raw_cells then 0 else INVALID_size_t)"
    if "r < num_raw_cells + 1" for r
  proof -
    have "num_raw_cells < length (replicate (num_raw_cells + 1) INVALID_size_t)"
      by simp
    then have "m ! r = (if num_raw_cells = r then 0
                        else replicate (num_raw_cells + 1) INVALID_size_t ! r)"
      unfolding m_def by (rule nth_list_update)
    moreover have "replicate (num_raw_cells + 1) INVALID_size_t ! r = INVALID_size_t"
      using that by (rule nth_replicate)
    ultimately show ?thesis by auto
  qed
  have "relabel_inv [num_raw_cells] (m, 1)"
    unfolding relabel_inv_def using len nth assms by (auto simp: final_id_def)
  then show ?thesis
    by (simp only: m_def)
qed

text \<open>The relabeling of a table with one row per patch.\<close>

lemma relabel_first_seen:
  assumes "relabel (length raw_cells) num_raw_cells raw_cells = Inr (cells, count)"
    and "num_raw_cells + 1 < INVALID_size_t"
  shows "cells = map (\<lambda>(a, b).
                    (final_id (first_seen [num_raw_cells] (cell_entries raw_cells)) a,
                     final_id (first_seen [num_raw_cells] (cell_entries raw_cells)) b)) raw_cells \<and>
         count = length (first_seen [num_raw_cells] (cell_entries raw_cells)) \<and>
         final_id (first_seen [num_raw_cells] (cell_entries raw_cells)) num_raw_cells = 0 \<and>
         insert 0 (set (cell_entries cells)) = {0..<count} \<and>
         (num_raw_cells \<in> set (cell_entries raw_cells) \<longrightarrow>
            set (cell_entries cells) = {0..<count})"
proof -
  let ?ord = "first_seen [num_raw_cells] (cell_entries raw_cells)"
  from assms(1) obtain m' where
    loop: "foldM relabel_patch [0..<length raw_cells]
             (raw_cells, (replicate (num_raw_cells + 1) INVALID_size_t)[num_raw_cells := 0], 1) =
           Inr (cells, m', count)"
    by (auto simp: relabel_def Let_def err_bind_eq_Inr)
  from relabel_loop [OF loop relabel_initial [OF assms(2)] order_refl]
  have inv: "relabel_inv ?ord (m', count)"
    and cells: "cells = map (\<lambda>(a, b). (final_id ?ord a, final_id ?ord b)) raw_cells"
    by simp_all
  from inv have d: "distinct ?ord" and c: "count = length ?ord"
    by (simp_all add: relabel_inv_def)
  have "num_raw_cells \<in> set [num_raw_cells]" by simp
  from final_id_first_seen [OF this, of "cell_entries raw_cells"]
  have z: "final_id ?ord num_raw_cells = 0"
    by (simp add: final_id_def)
  have ids: "set (cell_entries cells) = final_id ?ord ` set (cell_entries raw_cells)"
    unfolding cells cell_entries_map by simp
  have "final_id ?ord ` set ?ord = {0..<count}"
    using final_id_image [OF d] c by simp
  then have all: "insert 0 (final_id ?ord ` set (cell_entries raw_cells)) = {0..<count}"
    using z by (simp add: first_seen_set)
  have "final_id ?ord ` set (cell_entries raw_cells) = {0..<count}"
    if "num_raw_cells \<in> set (cell_entries raw_cells)"
  proof -
    have "0 \<in> final_id ?ord ` set (cell_entries raw_cells)"
      using that z by (metis imageI)
    then have "insert 0 (final_id ?ord ` set (cell_entries raw_cells)) =
               final_id ?ord ` set (cell_entries raw_cells)"
      by (rule insert_absorb)
    then show ?thesis using all by simp
  qed
  then show ?thesis
    using cells c z all ids by simp
qed

subsection \<open>The infinite cell is on a patch\<close>

lemma resolve_cells_stages:
  assumes "resolve_cells col V F P E uE2E EMAP num_patches raw_cells num_raw_cells = Inr r"
  shows "\<exists>C counts Is outer nest embedded_cells raw_cells'.
           facet_components col E EMAP uE2E = (C, counts) \<and>
           group_faces C (length F) (length counts) = Inr Is \<and>
           mapM (outer_of_component col V F P raw_cells) Is = Inr outer \<and>
           nesting_of col V F P uE2E EMAP raw_cells num_raw_cells C (length counts) Is
             (map fst outer) (map (\<lambda>x. snd (snd x)) outer) = Inr nest \<and>
           embedded_cells_of (length counts) (map (\<lambda>x. snd (snd x)) outer)
             (nest_ambient_comps nest) (nest_ambient_cells nest) num_raw_cells =
             Inr embedded_cells \<and>
           foldM (embed_patch embedded_cells) [0..<num_patches] raw_cells = Inr raw_cells' \<and>
           relabel num_patches num_raw_cells raw_cells' = Inr r"
proof -
  obtain C counts where c: "facet_components col E EMAP uE2E = (C, counts)"
    by (cases "facet_components col E EMAP uE2E")
  from assms show ?thesis
    unfolding resolve_cells_def c prod.case Let_def
    by (auto simp: err_bind_eq_Inr)
qed

lemma push_back_at_length: "push_back_at xss k x = Inr yss \<Longrightarrow> length yss = length xss \<and> k < length xss"
  by (auto simp: push_back_at_def err_bind_eq_Inr elem_eq_Inr)

lemma foldM_first: "foldM f (x # xs) s = Inr s' \<Longrightarrow> \<exists>t. f x s = Inr t"
  by (auto split: sum.splits)

lemma foldM_each:
  assumes "foldM f xs s = Inr s'" and "x \<in> set xs"
  shows "\<exists>t t'. f x t = Inr t'"
  using assms
proof (induction xs arbitrary: s)
  case Nil
  then show ?case by simp
next
  case (Cons y ys)
  from Cons.prems(1) obtain t where t: "f y s = Inr t" and r: "foldM f ys t = Inr s'"
    by (auto split: sum.splits)
  show ?case
  proof (cases "x = y")
    case True
    then show ?thesis using t by blast
  next
    case False
    then have "x \<in> set ys" using Cons.prems(2) by simp
    from Cons.IH [OF r this] show ?thesis .
  qed
qed

lemma group_faces_components:
  assumes "group_faces C (length F) n = Inr Is" and "F \<noteq> []"
  shows "0 < n \<and> length Is = n"
proof -
  let ?f = "\<lambda>i components. err_bind (elem C i) (\<lambda>c. push_back_at components c i)"
  have run: "foldM ?f [0..<length F] (replicate n []) = Inr Is"
    using assms(1) by (simp add: group_faces_def)
  have len: "length Is = n"
  proof (rule foldM_invariant [OF run, where I = "\<lambda>t. length t = n"])
    show "length (replicate n ([] :: nat list)) = n" by simp
  next
    fix i t t'
    assume "length t = n" and "?f i t = Inr t'"
    then show "length t' = n"
      by (auto simp: err_bind_eq_Inr dest: push_back_at_length)
  qed
  have "[0..<length F] = 0 # [1..<length F]"
    using assms(2) by (simp add: upt_rec)
  with run have "\<exists>t. ?f 0 (replicate n []) = Inr t"
    using foldM_first [of ?f 0 "[1..<length F]" "replicate n []" Is] by simp
  then have "0 < n"
    by (auto simp: err_bind_eq_Inr dest: push_back_at_length)
  then show ?thesis
    using len by simp
qed

lemma outer_cells_on_patches:
  assumes "mapM (outer_of_component col V F P raw_cells) Is = Inr outer"
  shows "length outer = length Is \<and>
         (\<forall>i<length Is. \<exists>p side. cell_at raw_cells p side = Inr (snd (snd (outer ! i))))"
proof (intro conjI allI impI)
  show "length outer = length Is"
    by (rule mapM_Inr_length [OF assms])
next
  fix i
  assume "i < length Is"
  from mapM_Inr_nth [OF assms this]
  have o: "outer_of_component col V F P raw_cells (Is ! i) = Inr (outer ! i)" .
  obtain f flipped where of: "outer_facet col V F (Is ! i) = (f, flipped)"
    by (cases "outer_facet col V F (Is ! i)")
  from o obtain p c where "cell_at raw_cells p (if flipped then 1 else 0) = Inr c"
    and "outer ! i = (f, (if flipped then 1 else 0), c)"
    unfolding outer_of_component_def of prod.case Let_def
    by (auto simp: err_bind_eq_Inr)
  then have "cell_at raw_cells p (if flipped then 1 else 0) = Inr (snd (snd (outer ! i)))"
    by simp
  then show "\<exists>p side. cell_at raw_cells p side = Inr (snd (snd (outer ! i)))"
    by blast
qed

lemma record_candidate_length:
  assumes "record_candidate P raw_cells outer_cells i cands cf cfo j st = Inr st'"
  shows "length (nest_ambient_comps st') = length (nest_ambient_comps st)"
  using assms
  by (auto simp: record_candidate_def err_bind_eq_Inr Let_def split: if_splits
        dest: push_back_at_length)

lemma nest_component_length:
  assumes "nest_component col V F P uE2E EMAP raw_cells n Is outer_facets outer_cells bbox_max
             bbox_min i st = Inr st'"
  shows "length (nest_ambient_comps st') = length (nest_ambient_comps st)"
proof -
  from assms obtain cands where
    r: "(if length cands = 0 then Inr st
         else err_bind (queries_of V F outer_facets cands) (\<lambda>queries.
              err_bind (elem Is i) (\<lambda>I.
              case closest_facet col V F I queries uE2E EMAP of
                (closest_facets, closest_facet_orientations) \<Rightarrow>
                  foldM (record_candidate P raw_cells outer_cells i cands closest_facets
                           closest_facet_orientations)
                    [0..<length cands] st))) = Inr st'"
    by (auto simp: nest_component_def err_bind_eq_Inr)
  show ?thesis
  proof (cases "length cands = 0")
    case True
    with r show ?thesis by simp
  next
    case False
    with r obtain queries I where
      c: "(case closest_facet col V F I queries uE2E EMAP of
             (closest_facets, closest_facet_orientations) \<Rightarrow>
               foldM (record_candidate P raw_cells outer_cells i cands closest_facets
                        closest_facet_orientations)
                 [0..<length cands] st) = Inr st'"
      by (auto simp: err_bind_eq_Inr)
    obtain cf cfo where "closest_facet col V F I queries uE2E EMAP = (cf, cfo)"
      by (cases "closest_facet col V F I queries uE2E EMAP")
    with c have
      f: "foldM (record_candidate P raw_cells outer_cells i cands cf cfo) [0..<length cands] st =
            Inr st'"
      by simp
    show ?thesis
    proof (rule foldM_invariant [OF f,
          where I = "\<lambda>t. length (nest_ambient_comps t) = length (nest_ambient_comps st)"])
      show "length (nest_ambient_comps st) = length (nest_ambient_comps st)" ..
    next
      fix j t t'
      assume "length (nest_ambient_comps t) = length (nest_ambient_comps st)"
        and "record_candidate P raw_cells outer_cells i cands cf cfo j t = Inr t'"
      then show "length (nest_ambient_comps t') = length (nest_ambient_comps st)"
        using record_candidate_length by metis
    qed
  qed
qed

lemma nesting_of_length:
  assumes "nesting_of col V F P uE2E EMAP raw_cells num_raw_cells C n Is outer_facets outer_cells =
             Inr nest"
  shows "length (nest_ambient_comps nest) = n"
proof (cases "n > 1")
  case False
  with assms show ?thesis by (auto simp: nesting_of_def Let_def)
next
  case True
  with assms obtain bbox_min bbox_max where
    f: "foldM (nest_component col V F P uE2E EMAP raw_cells n Is outer_facets outer_cells
                 bbox_max bbox_min) [0..<n]
          \<lparr>nest_nested_cells = replicate num_raw_cells [],
           nest_ambient_cells = replicate num_raw_cells [],
           nest_ambient_comps = replicate n []\<rparr> = Inr nest"
    by (auto simp: nesting_of_def Let_def err_bind_eq_Inr)
  show ?thesis
  proof (rule foldM_invariant [OF f, where I = "\<lambda>t. length (nest_ambient_comps t) = n"])
    show "length (nest_ambient_comps
            \<lparr>nest_nested_cells = replicate num_raw_cells [],
             nest_ambient_cells = replicate num_raw_cells [],
             nest_ambient_comps = replicate n []\<rparr>) = n"
      by simp
  next
    fix i t t'
    assume "length (nest_ambient_comps t) = n"
      and "nest_component col V F P uE2E EMAP raw_cells n Is outer_facets outer_cells bbox_max
             bbox_min i t = Inr t'"
    then show "length (nest_ambient_comps t') = n"
      using nest_component_length by metis
  qed
qed

lemma find_embedded_index:
  assumes "find_embedded ac aci ci k js = Inr (cmp, cell)" and "cmp \<noteq> INVALID_size_t"
  shows "cmp < length ac \<and> length (ac ! cmp) = k - 1"
  using assms
proof (induction js)
  case Nil
  then show ?case by simp
next
  case (Cons j js)
  from Cons.prems(1) obtain c acj where c: "elem aci j = Inr c" and acj: "elem ac c = Inr acj"
    and r: "(if length acj = k - 1 then err_bind (elem ci j) (\<lambda>cell. Inr (c, cell))
             else find_embedded ac aci ci k js) = Inr (cmp, cell)"
    by (auto simp: err_bind_eq_Inr)
  show ?case
  proof (cases "length acj = k - 1")
    case True
    with r have "cmp = c" by (auto simp: err_bind_eq_Inr)
    then show ?thesis using acj True by (auto simp: elem_eq_Inr)
  next
    case False
    with r have "find_embedded ac aci ci k js = Inr (cmp, cell)" by simp
    from Cons.IH [OF this Cons.prems(2)] show ?thesis .
  qed
qed

text \<open>What the assertions of one round of the loop over the components establish.\<close>

lemma embed_component_checks:
  assumes "embed_component oc ac acells inf_cell i emb = Inr emb'"
  shows "length (ac ! i) = length (acells ! (oc ! i)) \<and>
         (ac ! i \<noteq> [] \<longrightarrow> (\<exists>c<length ac. length (ac ! c) = length (ac ! i) - 1))"
proof -
  from assms obtain ci where ci: "elem acells (oc ! i) = Inr ci"
    and r: "(let k = length (ac ! i) in
             if k \<noteq> length ci then Inl Ambient_size_mismatch
             else if k > 0 then
               err_bind (find_embedded ac (ac ! i) ci k [0..<k]) (\<lambda>(embedded_comp, embedded_cell).
               if embedded_comp = INVALID_size_t then Inl No_embedded_component
               else if embedded_cell = INVALID_size_t then Inl No_embedded_cell
               else if oc ! i < length emb then Inr (emb[oc ! i := embedded_cell])
               else Inl Index_out_of_range)
             else if oc ! i < length emb then Inr (emb[oc ! i := inf_cell])
             else Inl Index_out_of_range) = Inr emb'"
    by (auto simp: embed_component_def err_bind_eq_Inr elem_eq_Inr)
  have cells: "ci = acells ! (oc ! i)"
    using ci by (simp add: elem_eq_Inr)
  from r have size: "length (ac ! i) = length ci"
    by (auto simp: Let_def split: if_splits)
  have "\<exists>c<length ac. length (ac ! c) = length (ac ! i) - 1" if "ac ! i \<noteq> []"
  proof -
    from r that size obtain cmp cell where
      f: "find_embedded ac (ac ! i) ci (length (ac ! i)) [0..<length (ac ! i)] = Inr (cmp, cell)"
      and ok: "cmp \<noteq> INVALID_size_t"
      by (auto simp: Let_def err_bind_eq_Inr split: if_splits)
    from find_embedded_index [OF f ok] show ?thesis by blast
  qed
  then have ex: "ac ! i \<noteq> [] \<longrightarrow> (\<exists>c<length ac. length (ac ! c) = length (ac ! i) - 1)"
    by blast
  from size cells have "length (ac ! i) = length (acells ! (oc ! i))"
    by simp
  with ex show ?thesis
    by blast
qed

lemma some_component_has_no_ambient:
  assumes "foldM (embed_component oc ac acells inf_cell) [0..<n] emb0 = Inr emb"
    and "0 < n" and "length ac = n"
  shows "\<exists>i<n. ac ! i = []"
proof -
  have "\<exists>i. i < n \<and> (\<forall>i'. i' < n \<longrightarrow> length (ac ! i) \<le> length (ac ! i'))"
    using ex_has_least_nat [of "\<lambda>i. i < n" 0 "\<lambda>i. length (ac ! i)"] assms(2) by blast
  then obtain i where i: "i < n" and least: "\<forall>i'<n. length (ac ! i) \<le> length (ac ! i')"
    by blast
  have "i \<in> set [0..<n]" using i by simp
  from foldM_each [OF assms(1) this] obtain t t' where
    "embed_component oc ac acells inf_cell i t = Inr t'"
    by blast
  from embed_component_checks [OF this]
  have step: "ac ! i \<noteq> [] \<longrightarrow> (\<exists>c<length ac. length (ac ! c) = length (ac ! i) - 1)"
    by blast
  have "ac ! i = []"
  proof (rule ccontr)
    assume ne: "ac ! i \<noteq> []"
    with step obtain c where c: "c < length ac" "length (ac ! c) = length (ac ! i) - 1"
      by blast
    from c(1) assms(3) have "c < n" by simp
    with least have "length (ac ! i) \<le> length (ac ! c)"
      by blast
    moreover from ne have "0 < length (ac ! i)"
      by simp
    ultimately show False
      using c(2) by arith
  qed
  then show ?thesis
    using i by blast
qed

text \<open>The loop over the components gives the outer cell of an outermost component the
  infinite cell as parent, also when several components have this outer cell.\<close>

lemma outermost_is_embedded_in_infinite_cell:
  assumes "embedded_cells_of n oc ac acells num_raw_cells = Inr emb"
    and "0 < n" and "length ac = n"
  shows "\<exists>i<n. oc ! i < length emb \<and> emb ! (oc ! i) = num_raw_cells"
proof -
  let ?f = "embed_component oc ac acells num_raw_cells"
  have run: "foldM ?f [0..<n] (replicate num_raw_cells INVALID_size_t) = Inr emb"
    using assms(1) by (simp add: embedded_cells_of_def)
  from some_component_has_no_ambient [OF run assms(2,3)] obtain i where
    i: "i < n" and none: "ac ! i = []"
    by blast
  have "[0..<n] = [0..<i] @ [i..<n]"
    using i upt_add_eq_append [of 0 i "n - i"] by simp
  also have "[i..<n] = i # [Suc i..<n]"
    using i by (simp add: upt_conv_Cons)
  finally have split: "[0..<n] = [0..<i] @ i # [Suc i..<n]" .
  from run obtain emb1 emb2 where
    s2: "?f i emb1 = Inr emb2" and s3: "foldM ?f [Suc i..<n] emb2 = Inr emb"
    unfolding split by (auto simp: foldM_append split: sum.splits)
  from embed_component_effect [OF s2] none
  have r: "oc ! i < length emb1" and e2: "emb2 = emb1[oc ! i := num_raw_cells]"
    by simp_all
  from embed_component_checks [OF s2] none have empty: "acells ! (oc ! i) = []"
    by simp
  have "length emb = length emb2 \<and> emb ! (oc ! i) = num_raw_cells"
  proof (rule foldM_invariant [OF s3,
        where I = "\<lambda>t. length t = length emb2 \<and> t ! (oc ! i) = num_raw_cells"])
    show "length emb2 = length emb2 \<and> emb2 ! (oc ! i) = num_raw_cells"
      using e2 r by simp
  next
    fix j t t'
    assume t: "length t = length emb2 \<and> t ! (oc ! i) = num_raw_cells"
      and s: "?f j t = Inr t'"
    show "length t' = length emb2 \<and> t' ! (oc ! i) = num_raw_cells"
    proof (cases "oc ! j = oc ! i")
      case True
      with embed_component_checks [OF s] empty have "ac ! j = []"
        by simp
      with embed_component_effect [OF s] have "t' = t[oc ! j := num_raw_cells]"
        and "oc ! j < length t"
        by simp_all
      then show ?thesis
        using t True by simp
    next
      case False
      from embed_component_effect [OF s] obtain v where "t' = t[oc ! j := v]"
        by (cases "ac ! j = []") auto
      then show ?thesis
        using t False by simp
    qed
  qed
  then show ?thesis
    using i r e2 by auto
qed

text \<open>The rewriting loop: every entry of the first \<open>n\<close> patches whose raw cell has a
  recorded parent becomes that parent.\<close>

lemma embed_side_effect:
  assumes "embed_side emb i side raw = Inr raw'"
  shows "i < length raw \<and> side < 2 \<and> length raw' = length raw \<and>
         cell_entries raw' =
           (cell_entries raw)[2 * i + side :=
              (if emb ! (cell_entries raw ! (2 * i + side)) \<noteq> INVALID_size_t
               then emb ! (cell_entries raw ! (2 * i + side))
               else cell_entries raw ! (2 * i + side))]"
proof -
  from assms obtain c where c: "cell_at raw i side = Inr c"
    and r: "(if emb ! c \<noteq> INVALID_size_t then cell_set raw i side (emb ! c) else Inr raw) = Inr raw'"
    by (auto simp: embed_side_def err_bind_eq_Inr elem_eq_Inr)
  from c have i: "i < length raw" "side < 2" and e: "cell_entries raw ! (2 * i + side) = c"
    by (simp_all add: cell_at_entries)
  show ?thesis
  proof (cases "emb ! c \<noteq> INVALID_size_t")
    case True
    with r have "cell_set raw i side (emb ! c) = Inr raw'" by simp
    from cell_set_entries [OF this] show ?thesis
      using True e by simp
  next
    case False
    with r have same: "raw' = raw" by simp
    from e have "(cell_entries raw)[2 * i + side := c] = cell_entries raw"
      by (metis list_update_id)
    then show ?thesis
      using False i e same by simp
  qed
qed

lemma embed_patch_effect:
  assumes "embed_patch emb i raw = Inr raw'"
  shows "i < length raw \<and> length raw' = length raw \<and>
         (\<forall>k<2 * length raw.
            cell_entries raw' ! k =
              (if (k = 2 * i \<or> k = 2 * i + 1) \<and> emb ! (cell_entries raw ! k) \<noteq> INVALID_size_t
               then emb ! (cell_entries raw ! k) else cell_entries raw ! k))"
proof -
  from assms obtain raw1 where s0: "embed_side emb i 0 raw = Inr raw1"
    and s1: "embed_side emb i 1 raw1 = Inr raw'"
    by (auto simp: embed_patch_def err_bind_eq_Inr)
  note e0 = embed_side_effect [OF s0]
  note e1 = embed_side_effect [OF s1]
  have l: "length (cell_entries raw) = 2 * length raw"
    by (rule length_cell_entries)
  have "cell_entries raw' ! k =
          (if (k = 2 * i \<or> k = 2 * i + 1) \<and> emb ! (cell_entries raw ! k) \<noteq> INVALID_size_t
           then emb ! (cell_entries raw ! k) else cell_entries raw ! k)"
    if "k < 2 * length raw" for k
  proof -
    have k0: "cell_entries raw1 ! k =
                (if k = 2 * i \<and> emb ! (cell_entries raw ! k) \<noteq> INVALID_size_t
                 then emb ! (cell_entries raw ! k) else cell_entries raw ! k)"
      using e0 that l by (auto simp: nth_list_update)
    have k1: "cell_entries raw' ! k =
                (if k = 2 * i + 1 \<and> emb ! (cell_entries raw1 ! k) \<noteq> INVALID_size_t
                 then emb ! (cell_entries raw1 ! k) else cell_entries raw1 ! k)"
      using e1 e0 that l by (auto simp: nth_list_update length_cell_entries)
    show ?thesis
      using k0 k1 by auto
  qed
  then show ?thesis
    using e0 e1 by simp
qed

lemma embed_loop_entry:
  assumes "foldM (embed_patch emb) [0..<n] raw = Inr raw'"
    and "cell_at raw p side = Inr c" and "p < n"
    and "emb ! c \<noteq> INVALID_size_t"
  shows "length raw' = length raw \<and> cell_at raw' p side = Inr (emb ! c)"
proof -
  from assms(2) have ps: "p < length raw" "side < 2"
    and c: "cell_entries raw ! (2 * p + side) = c"
    by (simp_all add: cell_at_entries)
  have k: "2 * p + side < 2 * length raw"
    using ps by linarith
  have "[0..<n] = [0..<p] @ [p..<n]"
    using assms(3) upt_add_eq_append [of 0 p "n - p"] by simp
  also have "[p..<n] = p # [Suc p..<n]"
    using assms(3) by (simp add: upt_conv_Cons)
  finally have split: "[0..<n] = [0..<p] @ p # [Suc p..<n]" .
  from assms(1) obtain raw1 raw2 where
    s1: "foldM (embed_patch emb) [0..<p] raw = Inr raw1"
    and s2: "embed_patch emb p raw1 = Inr raw2"
    and s3: "foldM (embed_patch emb) [Suc p..<n] raw2 = Inr raw'"
    unfolding split by (auto simp: foldM_append split: sum.splits)
  have a: "length raw1 = length raw \<and> cell_entries raw1 ! (2 * p + side) = c"
  proof (rule foldM_invariant [OF s1,
        where I = "\<lambda>t. length t = length raw \<and> cell_entries t ! (2 * p + side) = c"])
    show "length raw = length raw \<and> cell_entries raw ! (2 * p + side) = c"
      using c by simp
  next
    fix i t t'
    assume i: "i \<in> set [0..<p]"
      and t: "length t = length raw \<and> cell_entries t ! (2 * p + side) = c"
      and s: "embed_patch emb i t = Inr t'"
    have "2 * p + side \<noteq> 2 * i" "2 * p + side \<noteq> 2 * i + 1"
      using i ps(2) by auto
    then show "length t' = length raw \<and> cell_entries t' ! (2 * p + side) = c"
      using embed_patch_effect [OF s] t k by simp
  qed
  have "2 * p + side = 2 * p \<or> 2 * p + side = 2 * p + 1"
    using ps(2) by linarith
  then have b: "length raw2 = length raw \<and> cell_entries raw2 ! (2 * p + side) = emb ! c"
    using embed_patch_effect [OF s2] a k assms(4) by auto
  have "length raw' = length raw \<and> cell_entries raw' ! (2 * p + side) = emb ! c"
  proof (rule foldM_invariant [OF s3,
        where I = "\<lambda>t. length t = length raw \<and> cell_entries t ! (2 * p + side) = emb ! c"])
    show "length raw2 = length raw \<and> cell_entries raw2 ! (2 * p + side) = emb ! c"
      by (rule b)
  next
    fix i t t'
    assume i: "i \<in> set [Suc p..<n]"
      and t: "length t = length raw \<and> cell_entries t ! (2 * p + side) = emb ! c"
      and s: "embed_patch emb i t = Inr t'"
    have "2 * p + side \<noteq> 2 * i" "2 * p + side \<noteq> 2 * i + 1"
      using i ps(2) by auto
    then show "length t' = length raw \<and> cell_entries t' ! (2 * p + side) = emb ! c"
      using embed_patch_effect [OF s] t k by simp
  qed
  then show ?thesis
    using ps by (simp add: cell_at_entries)
qed

lemma embed_loop_length:
  assumes "foldM (embed_patch emb) [0..<n] raw = Inr raw'"
  shows "length raw' = length raw"
proof (rule foldM_invariant [OF assms, where I = "\<lambda>t. length t = length raw"])
  show "length raw = length raw" ..
next
  fix i t t'
  assume "length t = length raw" and "embed_patch emb i t = Inr t'"
  then show "length t' = length raw"
    using embed_patch_effect by metis
qed

subsection \<open>The final ids\<close>

lemma single_component_inv:
  assumes "extract_cells_single_component col V F P uE uE2E EMAP = Some (Inr (cells, count))"
    and "num_patches_of P = Inr n"
    and "2 * n \<le> INVALID"
  shows "cells_inv n (cells, count)"
proof -
  from assms(1,2) obtain ec where
    run: "foldMO (label_patch (peel_env_of F P EMAP ec)) [0..<n]
            (replicate n (INVALID, INVALID), 0) = Some (Inr (cells, count))"
    by (auto simp: extract_cells_single_component_def split: sum.splits)
  from label_loop [OF initial_cells_inv assms(3) order_refl, of "peel_env_of F P EMAP ec"] run
  show ?thesis
    by auto
qed

lemma resolve_cells_rewritten:
  "resolve_cells col V F P E uE2E EMAP n raw_cells num_raw_cells =
     err_bind (rewritten_cells col V F P E uE2E EMAP n raw_cells num_raw_cells)
       (relabel n num_raw_cells)"
proof -
  obtain C counts where c: "facet_components col E EMAP uE2E = (C, counts)"
    by (cases "facet_components col E EMAP uE2E")
  show ?thesis
    unfolding resolve_cells_def rewritten_cells_def c prod.case Let_def
    by (simp add: err_bind_def split: sum.splits)
qed

lemma final_id_head: "final_id (first_seen [r0] rs) r = 0 \<longleftrightarrow> r = r0"
proof -
  from first_seen_extends [of "[r0]" rs] obtain zs where "first_seen [r0] rs = [r0] @ zs" ..
  then show ?thesis
    by (auto simp: final_id_def)
qed

text \<open>After the nesting is resolved the infinite cell is an entry of the table: it is the
  parent of the outer cell of an outermost component, and this cell is on the patch of the
  outer facet.\<close>

lemma infinite_cell_on_a_patch:
  assumes "resolve_cells col V F P E uE2E EMAP n raw_cells num_raw_cells = Inr r"
    and "F \<noteq> []" and "length raw_cells = n" and "num_raw_cells \<noteq> INVALID_size_t"
  shows "\<exists>raw_cells'.
           rewritten_cells col V F P E uE2E EMAP n raw_cells num_raw_cells = Inr raw_cells' \<and>
           relabel n num_raw_cells raw_cells' = Inr r \<and> length raw_cells' = n \<and>
           num_raw_cells \<in> set (cell_entries raw_cells')"
proof -
  from resolve_cells_stages [OF assms(1)] obtain C counts Is outer nest emb raw' where
    fc: "facet_components col E EMAP uE2E = (C, counts)"
    and g: "group_faces C (length F) (length counts) = Inr Is"
    and o: "mapM (outer_of_component col V F P raw_cells) Is = Inr outer"
    and ne: "nesting_of col V F P uE2E EMAP raw_cells num_raw_cells C (length counts) Is
               (map fst outer) (map (\<lambda>x. snd (snd x)) outer) = Inr nest"
    and e: "embedded_cells_of (length counts) (map (\<lambda>x. snd (snd x)) outer)
              (nest_ambient_comps nest) (nest_ambient_cells nest) num_raw_cells = Inr emb"
    and w: "foldM (embed_patch emb) [0..<n] raw_cells = Inr raw'"
    and rel: "relabel n num_raw_cells raw' = Inr r"
    by blast
  from group_faces_components [OF g assms(2)]
  have pos: "0 < length counts" and len: "length Is = length counts"
    by simp_all
  from outermost_is_embedded_in_infinite_cell [OF e pos nesting_of_length [OF ne]]
  obtain i where i: "i < length counts"
    and inf: "emb ! (map (\<lambda>x. snd (snd x)) outer ! i) = num_raw_cells"
    by blast
  from outer_cells_on_patches [OF o] have lo: "length outer = length Is"
    and on: "\<forall>i<length Is. \<exists>p side. cell_at raw_cells p side = Inr (snd (snd (outer ! i)))"
    by simp_all
  from on i len obtain p side where
    c: "cell_at raw_cells p side = Inr (snd (snd (outer ! i)))"
    by auto
  have oc: "map (\<lambda>x. snd (snd x)) outer ! i = snd (snd (outer ! i))"
    using i len lo by simp
  from c have p: "p < n"
    using assms(3) by (simp add: cell_at_entries)
  have "emb ! snd (snd (outer ! i)) \<noteq> INVALID_size_t"
    using inf oc assms(4) by simp
  from embed_loop_entry [OF w c p this]
  have l: "length raw' = length raw_cells"
    and a: "cell_at raw' p side = Inr num_raw_cells"
    using inf oc by simp_all
  from a have k: "2 * p + side < length (cell_entries raw')"
    and v: "cell_entries raw' ! (2 * p + side) = num_raw_cells"
    by (simp_all add: cell_at_entries length_cell_entries)
  from nth_mem [OF k] v have "num_raw_cells \<in> set (cell_entries raw')"
    by simp
  moreover have "rewritten_cells col V F P E uE2E EMAP n raw_cells num_raw_cells = Inr raw'"
    unfolding rewritten_cells_def fc prod.case Let_def
    by (simp only: g o ne e w err_bind_Inr)
  ultimately show ?thesis
    using rel l assms(3) by blast
qed

text \<open>Without a face there is no component, hence no outer cell to receive the infinite
  cell: when the patch vector nevertheless has an entry (it is then not a vector with one
  entry per face), the call returns a table in which the final id 0 is on no patch.\<close>

lemma bare_run_single:
  "extract_cells_single_component bare_col [] [] [0] [] [] [] = Some (Inr ([(0, 1)], 2))"
  by (simp add: extract_cells_single_component_def cache_defs peel_defs bare_col_def eval_defs)

lemma bare_run:
  "extract_cells bare_col [] [] [0] [] [] [] [] = Some (Inr ([(1, 2)], 3))"
proof -
  have "resolve_cells bare_col [] [] [0] [] [] [] 1 [(0, 1)] 2 = Inr ([(1, 2)], 3)"
    by (simp add: resolve_defs bare_col_def eval_defs)
  moreover have "num_patches_of [0] = Inr 1"
    by (simp add: num_patches_of_def)
  ultimately show ?thesis
    unfolding extract_cells_def bare_run_single by simp
qed

lemma rival_rewritten:
  "rewritten_cells rival_col rival_V rival_F rival_P rival_E rival_uE2E rival_EMAP 4
     [(0, 1), (2, 3), (4, 5), (6, 7)] 8 = Inr [(8, 1), (1, 3), (1, 5), (3, 7)]"
proof -
  have c: "facet_components rival_col rival_E rival_EMAP rival_uE2E = ([0, 1, 2, 3], [1, 1, 1, 1])"
    by (simp add: rival_col_def)
  have g: "group_faces [0, 1, 2, 3] (length rival_F) 4 = Inr [[0], [1], [2], [3]]"
    by (simp add: group_faces_def rival_F_def eval_defs)
  have o: "mapM (outer_of_component rival_col rival_V rival_F rival_P
                   [(0, 1), (2, 3), (4, 5), (6, 7)]) [[0], [1], [2], [3]] =
             Inr [(0, 0, 0), (1, 0, 2), (2, 0, 4), (3, 0, 6)]"
    by (simp add: outer_of_component_def rival_col_def rival_P_def eval_defs)
  have lc: "length [1, 1, 1, 1 :: nat] = 4"
    by simp
  have mf: "map fst [(0, 0, 0), (1, 0, 2), (2, 0, 4), (3, 0 :: nat, 6 :: nat)] = [0, 1, 2, 3 :: nat]"
    by simp
  have ms: "map (\<lambda>x. snd (snd x)) [(0, 0, 0), (1, 0, 2), (2, 0, 4), (3 :: nat, 0 :: nat, 6)] =
              [0, 2, 4, 6 :: nat]"
    by simp
  have r: "foldM (embed_patch [8, INVALID_size_t, 1, INVALID_size_t, 1, INVALID_size_t, 3,
                               INVALID_size_t]) [0..<4] [(0, 1), (2, 3), (4, 5), (6, 7)] =
             Inr [(8, 1), (1, 3), (1, 5), (3, 7)]"
    by (simp add: embed_patch_def embed_side_def eval_defs)
  show ?thesis
    unfolding rewritten_cells_def c prod.case Let_def lc
    by (simp only: g err_bind_Inr o mf ms rival_nesting_of rival_embedded r)
qed

text \<open>
  Claim C5. For a call of the patch-level \<open>extract_cells\<close> with at least one face (as
  with every patch vector that has one entry per face and a maximum) and with \<open>n\<close>
  patches, \<open>2 * n\<close> at most \<open>INVALID\<close>, that returns the table \<open>cells\<close> and the count,
  and whose call of \<open>extract_cells_single_component\<close> returned the table \<open>raw_cells\<close> and
  the count \<open>num_raw_cells\<close>, the sentinel of the infinite cell: the nesting step gives a
  table \<open>rewritten\<close> of \<open>n\<close> rows, in which the sentinel is an entry; the returned table is
  \<open>rewritten\<close> with every raw id replaced by its position in the list that starts with the
  sentinel and continues with the raw ids of \<open>rewritten\<close> in the order of their first
  occurrence, the rows with the patch index increasing and in a row side 0 before side 1;
  an entry of the returned table is 0 exactly where \<open>rewritten\<close> has the sentinel; the
  returned count is the length of this list, and the final ids of the returned table are
  exactly the ids below the count.
\<close>

theorem final_ids_in_first_seen_order_and_dense:
  assumes "extract_cells col V F P E uE uE2E EMAP = Some (Inr (cells, count))"
    and "extract_cells_single_component col V F P uE uE2E EMAP =
           Some (Inr (raw_cells, num_raw_cells))"
    and "F \<noteq> []"
    and "num_patches_of P = Inr n"
    and "2 * n \<le> INVALID"
  shows "\<exists>rewritten.
           rewritten_cells col V F P E uE2E EMAP n raw_cells num_raw_cells = Inr rewritten \<and>
           length rewritten = n \<and>
           num_raw_cells \<in> set (cell_entries rewritten) \<and>
           cells = map (\<lambda>(a, b).
                     (final_id (first_seen [num_raw_cells] (cell_entries rewritten)) a,
                      final_id (first_seen [num_raw_cells] (cell_entries rewritten)) b))
                     rewritten \<and>
           (\<forall>p<n. \<forall>side<2.
              cell_at cells p side = Inr 0 \<longleftrightarrow> cell_at rewritten p side = Inr num_raw_cells) \<and>
           count = length (first_seen [num_raw_cells] (cell_entries rewritten)) \<and>
           set (cell_entries cells) = {0..<count}"
proof -
  from assms(1,2,4)
  have res: "resolve_cells col V F P E uE2E EMAP n raw_cells num_raw_cells = Inr (cells, count)"
    by (simp add: extract_cells_def)
  from single_component_inv [OF assms(2,4,5)]
  have len: "length raw_cells = n"
    and bound: "num_raw_cells + unlabeled (cell_entries raw_cells) \<le> 2 * n"
    by (simp_all add: cells_inv_def)
  from bound assms(5) have "num_raw_cells \<le> 2147483647"
    by (simp add: INVALID_def)
  then have ok: "num_raw_cells \<noteq> INVALID_size_t" and room: "num_raw_cells + 1 < INVALID_size_t"
    by (simp_all add: INVALID_size_t_def)
  from infinite_cell_on_a_patch [OF res assms(3) len ok] obtain raw where
    rw: "rewritten_cells col V F P E uE2E EMAP n raw_cells num_raw_cells = Inr raw"
    and rel: "relabel n num_raw_cells raw = Inr (cells, count)" and l: "length raw = n"
    and mem: "num_raw_cells \<in> set (cell_entries raw)"
    by blast
  let ?ord = "first_seen [num_raw_cells] (cell_entries raw)"
  from rel l have "relabel (length raw) num_raw_cells raw = Inr (cells, count)"
    by simp
  from relabel_first_seen [OF this room] mem
  have m: "cells = map (\<lambda>(a, b). (final_id ?ord a, final_id ?ord b)) raw"
    and c: "count = length ?ord"
    and d: "set (cell_entries cells) = {0..<count}"
    by blast+
  have e: "cell_entries cells = map (final_id ?ord) (cell_entries raw)"
    unfolding m by (rule cell_entries_map)
  have lc: "length cells = n"
    unfolding m using l by simp
  have z: "cell_at cells p side = Inr 0 \<longleftrightarrow> cell_at raw p side = Inr num_raw_cells"
    if "p < n" and "side < 2" for p side
  proof -
    have "2 * p + side < length (cell_entries raw)"
      using that l by (simp add: length_cell_entries)
    then have "cell_entries cells ! (2 * p + side) = final_id ?ord (cell_entries raw ! (2 * p + side))"
      unfolding e by (rule nth_map)
    then show ?thesis
      using that l lc by (simp add: cell_at_entries final_id_head)
  qed
  from rw l mem m z c d show ?thesis
    by blast
qed

theorem final_ids_in_first_seen_order_and_dense_witness:
  "extract_cells rival_col rival_V rival_F rival_P rival_E rival_uE rival_uE2E rival_EMAP =
     Some (Inr ([(0, 1), (1, 2), (1, 3), (2, 4)], 5)) \<and>
   extract_cells_single_component rival_col rival_V rival_F rival_P rival_uE rival_uE2E rival_EMAP =
     Some (Inr ([(0, 1), (2, 3), (4, 5), (6, 7)], 8)) \<and>
   rival_F \<noteq> [] \<and> num_patches_of rival_P = Inr 4 \<and> 2 * 4 \<le> INVALID \<and>
   rewritten_cells rival_col rival_V rival_F rival_P rival_E rival_uE2E rival_EMAP 4
     [(0, 1), (2, 3), (4, 5), (6, 7)] 8 = Inr [(8, 1), (1, 3), (1, 5), (3, 7)] \<and>
   [(0, 1), (1, 2), (1, 3), (2, 4)] =
     map (\<lambda>(a, b).
       (final_id (first_seen [8] (cell_entries [(8, 1), (1, 3), (1, 5), (3, 7)])) a,
        final_id (first_seen [8] (cell_entries [(8, 1), (1, 3), (1, 5), (3, 7)])) b))
       [(8, 1), (1, 3), (1, 5), (3, 7)] \<and>
   5 = length (first_seen [8] (cell_entries [(8, 1), (1, 3), (1, 5), (3, 7)])) \<and>
   set (cell_entries [(0, 1), (1, 2), (1, 3), (2, 4 :: nat)]) = {0..<5}"
proof -
  have f: "rival_F \<noteq> []"
    by (simp add: rival_F_def)
  have s: "2 * 4 \<le> INVALID"
    by (simp add: INVALID_def)
  from final_ids_in_first_seen_order_and_dense [OF rival_run rival_run_single f rival_num_patches s]
  obtain rewritten where
    w: "rewritten_cells rival_col rival_V rival_F rival_P rival_E rival_uE2E rival_EMAP 4
       [(0, 1), (2, 3), (4, 5), (6, 7)] 8 = Inr rewritten"
    and m: "[(0, 1), (1, 2), (1, 3), (2, 4)] =
       map (\<lambda>(a, b).
         (final_id (first_seen [8] (cell_entries rewritten)) a,
          final_id (first_seen [8] (cell_entries rewritten)) b)) rewritten"
    and c: "5 = length (first_seen [8] (cell_entries rewritten))"
    and d: "set (cell_entries [(0, 1), (1, 2), (1, 3), (2, 4 :: nat)]) = {0..<5}"
    by (elim exE conjE) (rule that; assumption)
  from w [unfolded rival_rewritten] have r: "rewritten = [(8, 1), (1, 3), (1, 5), (3, 7)]"
    by simp
  show ?thesis
    using rival_run rival_run_single f rival_num_patches s rival_rewritten m c d
    unfolding r by blast
qed

end
